theory Spec2Isabelle
  imports Complex_Main
begin

section \<open>Python strings\<close>

text \<open>
  A Python \<open>str\<close> is a sequence of code points. It is modelled as a \<open>string\<close>
  in which every \<open>char\<close> stands for one code point (so the model covers the code points
  below 256, which include every character of the tags the agent looks for).
  \<open>len\<close> is \<open>length\<close> and \<open>+\<close> is \<open>@\<close>.
\<close>

text \<open>\<open>s.startswith(p)\<close>.\<close>

fun startswith :: "string \<Rightarrow> string \<Rightarrow> bool" where
  "startswith [] s = True"
| "startswith (p # ps) [] = False"
| "startswith (p # ps) (c # cs) = (p = c \<and> startswith ps cs)"

text \<open>\<open>sub in s\<close>: the substring test.\<close>

fun contains :: "string \<Rightarrow> string \<Rightarrow> bool" where
  "contains sub [] = startswith sub []"
| "contains sub (c # cs) = (startswith sub (c # cs) \<or> contains sub cs)"

text \<open>
  \<open>c.isspace()\<close> on the code points below 256: tab, line feed, vertical tab, form feed,
  carriage return, the four separators 0x1c..0x1f, space, next line (0x85) and the
  no-break space (0xa0).
\<close>

definition isspace :: "char \<Rightarrow> bool" where
  "isspace c = (c \<in> set [CHR 0x09, CHR 0x0A, CHR 0x0B, CHR 0x0C, CHR 0x0D,
                           CHR 0x1C, CHR 0x1D, CHR 0x1E, CHR 0x1F, CHR 0x20,
                           CHR 0x85, CHR 0xA0])"

text \<open>\<open>s.strip()\<close>: leading and trailing whitespace removed.\<close>

definition strip :: "string \<Rightarrow> string" where
  "strip s = rev (dropWhile isspace (rev (dropWhile isspace s)))"

text \<open>
  \<open>s.replace(old, '')\<close>: every occurrence of \<open>old\<close> is removed, scanning from the
  left and continuing after each removed occurrence. With an empty \<open>old\<close> Python
  inserts the (empty) replacement between the characters, which leaves \<open>s\<close> as it is.
\<close>

function replace_by_empty :: "string \<Rightarrow> string \<Rightarrow> string" where
  "replace_by_empty old [] = []"
| "replace_by_empty old (c # cs) =
     (if old \<noteq> [] \<and> startswith old (c # cs)
      then replace_by_empty old (drop (length old) (c # cs))
      else c # replace_by_empty old cs)"
  by pat_completeness auto
termination
proof (relation "measure (\<lambda>(old, s). length s)")
  fix old :: string and c :: char and cs :: string
  assume "old \<noteq> [] \<and> startswith old (c # cs)"
  then have "0 < length old"
    by simp
  then show "((old, drop (length old) (c # cs)), (old, c # cs)) \<in> measure (\<lambda>(old, s). length s)"
    by simp
qed simp_all

text \<open>\<open>str(n)\<close> for an integer: decimal digits, with a minus sign when negative.\<close>

definition digit_char :: "nat \<Rightarrow> char" where
  "digit_char d = ''0123456789'' ! d"

function str_nat :: "nat \<Rightarrow> string" where
  "str_nat n = (if n < 10 then [digit_char n] else str_nat (n div 10) @ [digit_char (n mod 10)])"
  by pat_completeness auto
termination
  by (relation "measure id") auto

declare str_nat.simps [simp del]

definition str_int :: "int \<Rightarrow> string" where
  "str_int i = (if i < 0 then CHR ''-'' # str_nat (nat (- i)) else str_nat (nat i))"

text \<open>
  Slices. \<open>s[:k]\<close> keeps the first \<open>k\<close> characters, or drops the last \<open>-k\<close> when
  \<open>k\<close> is negative; \<open>s[k:]\<close> drops the first \<open>k\<close> characters, or keeps the last
  \<open>-k\<close> when \<open>k\<close> is negative. Out-of-range bounds are clipped, as Python does.
\<close>

definition slice_to :: "string \<Rightarrow> int \<Rightarrow> string" where
  "slice_to s k = (if 0 \<le> k then take (nat k) s else take (length s - nat (- k)) s)"

definition slice_from :: "string \<Rightarrow> int \<Rightarrow> string" where
  "slice_from s k = (if 0 \<le> k then drop (nat k) s else drop (length s - nat (- k)) s)"

text \<open>\<open>s.split('\n')\<close> and \<open>'\n'.join(ls)\<close>.\<close>

fun split_lines :: "string \<Rightarrow> string list" where
  "split_lines [] = [] # []"
| "split_lines (c # cs) =
     (if c = CHR ''\<newline>'' then [] # split_lines cs
      else (case split_lines cs of [] \<Rightarrow> [c] # [] | l # ls \<Rightarrow> (c # l) # ls))"

fun join_lines :: "string list \<Rightarrow> string" where
  "join_lines [] = []"
| "join_lines [l] = l"
| "join_lines (l # ls) = l @ CHR ''\<newline>'' # join_lines ls"

section \<open>Truncation of observations\<close>

definition truncation_marker :: string where
  "truncation_marker = ''\<newline>[... Observation truncated due to length ...]\<newline>''"

text \<open>
  \<open>truncate_observation(observation, max_chars)\<close>; \<open>max_chars\<close> is a Python integer and
  \<open>//\<close> is floor division, which is \<open>div\<close> on \<open>int\<close>.
\<close>

definition truncate_observation :: "string \<Rightarrow> int \<Rightarrow> string" where
  "truncate_observation observation max_chars =
     (if int (length observation) \<le> max_chars then observation
      else let half = max_chars div 2
           in slice_to observation half @ truncation_marker @ slice_from observation (- half))"

definition default_max_chars :: int where
  "default_max_chars = 10000"

section \<open>Regular-expression search\<close>

text \<open>
  The patterns that \<open>step\<close> searches for all have the shape \<open>open(.*?)close\<close> or
  \<open>open(.*)close\<close>, compiled with \<open>re.DOTALL\<close>, so that the dot matches every
  character, newlines too. \<open>re.search\<close> is a backtracking matcher: it tries the start
  positions from left to right, and at a start position the opening literal has to match;
  then a lazy \<open>.*?\<close> tries the shortest body first and grows it, a greedy \<open>.*\<close>
  tries the longest body first and shrinks it, until the closing literal matches behind
  the body. The first success is the match.
\<close>

datatype quantifier = Greedy | Lazy

text \<open>The body (group 1) of \<open>(.*)close\<close> or \<open>(.*?)close\<close> matched at the start of a text.\<close>

fun match_body :: "quantifier \<Rightarrow> string \<Rightarrow> string \<Rightarrow> string option" where
  "match_body q cl [] = (if startswith cl [] then Some [] else None)"
| "match_body Lazy cl (c # cs) =
     (if startswith cl (c # cs) then Some []
      else map_option ((#) c) (match_body Lazy cl cs))"
| "match_body Greedy cl (c # cs) =
     (case match_body Greedy cl cs of
        Some b \<Rightarrow> Some (c # b)
      | None \<Rightarrow> if startswith cl (c # cs) then Some [] else None)"

definition match_at :: "quantifier \<Rightarrow> string \<Rightarrow> string \<Rightarrow> string \<Rightarrow> string option" where
  "match_at q op cl s = (if startswith op s then match_body q cl (drop (length op) s) else None)"

text \<open>The scan over the start positions; \<open>i\<close> is the position of the text that is left.\<close>

fun search_from ::
  "quantifier \<Rightarrow> string \<Rightarrow> string \<Rightarrow> nat \<Rightarrow> string \<Rightarrow> (nat \<times> string) option" where
  "search_from q op cl i [] = map_option (Pair i) (match_at q op cl [])"
| "search_from q op cl i (c # cs) =
     (case match_at q op cl (c # cs) of
        Some b \<Rightarrow> Some (i, b)
      | None \<Rightarrow> search_from q op cl (Suc i) cs)"

text \<open>
  \<open>re.search\<close>: \<open>None\<close>, or the match's start position and its group 1. Group 0, the whole
  matched span, is the opening literal, the body and the closing literal.
\<close>

definition re_search ::
  "quantifier \<Rightarrow> string \<Rightarrow> string \<Rightarrow> string \<Rightarrow> (nat \<times> string) option" where
  "re_search q op cl s = search_from q op cl 0 s"

definition group0 :: "string \<Rightarrow> string \<Rightarrow> string \<Rightarrow> string" where
  "group0 op cl body = op @ body @ cl"

text \<open>
  A tag pair in a text: an opening tag somewhere, and a closing tag somewhere behind it.
\<close>

fun tag_pair :: "string \<Rightarrow> string \<Rightarrow> string \<Rightarrow> bool" where
  "tag_pair op cl [] = (startswith op [] \<and> contains cl (drop (length op) []))"
| "tag_pair op cl (c # cs) =
     ((startswith op (c # cs) \<and> contains cl (drop (length op) (c # cs))) \<or> tag_pair op cl cs)"

section \<open>Events, messages and the state\<close>

text \<open>
  Modelled from the spec: the action and observation classes of \<open>opendevin.events\<close> are
  imported by the agent and not part of it. The constructors carry the fields the agent
  reads or writes. \<open>AgentFinishAction\<close> has an optional thought: \<open>None\<close> is the action
  built without one, \<open>AgentFinishAction()\<close>. \<open>OtherAction\<close> and \<open>OtherObservation\<close>
  stand for the event classes the agent does not look at.
\<close>

datatype Action =
    CmdRunAction string string
  | IPythonRunCellAction string string string
  | BrowseInteractiveAction string string
  | MessageAction string bool
  | AgentFinishAction "string option"
  | OtherAction

datatype Observation =
    CmdOutputObservation string int int
  | IPythonRunCellObservation string
  | BrowserOutputObservation string
  | OtherObservation

datatype EventSource = USER | AGENT

text \<open>An event of the history: an action with its \<open>source\<close> attribute, or an observation.\<close>

datatype Event = ActionEvent "EventSource option" Action | ObservationEvent Observation

record Message =
  role :: string
  content :: string

record State =
  history :: "Event list"
  iteration :: int
  max_iterations :: int
  num_of_chars :: int

datatype error = IndexError

text \<open>
  The model's response, reduced to what the agent reads of it: the list of
  \<open>choices[i].message.content\<close>.
\<close>

type_synonym response = "string list"

text \<open>
  The agent: its two prompt texts, which are built from constants of the prompt module,
  and the model client. The client is an object with a state of its own (\<open>'l\<close>); a call of
  \<open>llm.completion(messages, stop, temperature)\<close> returns the response and the client's
  next state.
\<close>

record 'l Agent =
  system_message :: string
  in_context_example :: string
  completion :: "'l \<Rightarrow> Message list \<Rightarrow> string list \<Rightarrow> real \<Rightarrow> response \<times> 'l"

definition jupyter_kernel_init_code :: string where
  "jupyter_kernel_init_code = ''from agentskills import *''"

section \<open>Tag repair\<close>

definition open_tag :: "string \<Rightarrow> string" where
  "open_tag lang = ''<execute_'' @ lang @ ''>''"

definition close_tag :: "string \<Rightarrow> string" where
  "close_tag lang = ''</execute_'' @ lang @ ''>''"

text \<open>One round of the loop of \<open>parse_response\<close>.\<close>

definition repair_tag :: "string \<Rightarrow> string \<Rightarrow> string" where
  "repair_tag lang action =
     (if contains (open_tag lang) action \<and> \<not> contains (close_tag lang) action
      then action @ close_tag lang else action)"

definition repair_tags :: "string \<Rightarrow> string" where
  "repair_tags action = fold repair_tag [''bash'', ''ipython'', ''browse''] action"

text \<open>\<open>parse_response\<close>: \<open>response.choices[0]\<close> raises \<open>IndexError\<close> on an empty list.\<close>

definition parse_response :: "response \<Rightarrow> error + string" where
  "parse_response response =
     (case response of
        [] \<Rightarrow> Inl IndexError
      | action # _ \<Rightarrow> Inr (repair_tags action))"

section \<open>Messages of the history\<close>

fun action_to_str :: "Action \<Rightarrow> string" where
  "action_to_str (CmdRunAction command thought) =
     thought @ ''\<newline><execute_bash>\<newline>'' @ command @ ''\<newline></execute_bash>''"
| "action_to_str (IPythonRunCellAction code thought kernel_init_code) =
     thought @ ''\<newline><execute_ipython>\<newline>'' @ code @ ''\<newline></execute_ipython>''"
| "action_to_str (BrowseInteractiveAction browser_actions thought) =
     thought @ ''\<newline><execute_browse>\<newline>'' @ browser_actions @ ''\<newline></execute_browse>''"
| "action_to_str (MessageAction content' wait_for_response) = content'"
| "action_to_str (AgentFinishAction thought) = []"
| "action_to_str OtherAction = []"

fun get_action_message :: "EventSource option \<Rightarrow> Action \<Rightarrow> Message option" where
  "get_action_message source (AgentFinishAction thought) = None"
| "get_action_message source OtherAction = None"
| "get_action_message source action =
     Some \<lparr>role = (if source = Some USER then ''user'' else ''assistant''),
           content = action_to_str action\<rparr>"

definition image_marker :: string where
  "image_marker = ''![image](data:image/png;base64,''"

definition image_placeholder :: string where
  "image_placeholder = ''![image](data:image/png;base64, ...) already displayed to user''"

fun get_observation_message :: "Observation \<Rightarrow> Message option" where
  "get_observation_message (CmdOutputObservation content' command_id exit_code) =
     Some \<lparr>role = ''user'',
           content = ''OBSERVATION:\<newline>'' @ truncate_observation content' default_max_chars @
             ''\<newline>[Command '' @ str_int command_id @ '' finished with exit code '' @
             str_int exit_code @ '']]''\<rparr>"
| "get_observation_message (IPythonRunCellObservation content') =
     (let splitted = split_lines (''OBSERVATION:\<newline>'' @ content');
          splitted = map (\<lambda>line. if contains image_marker line then image_placeholder else line)
                       splitted
      in Some \<lparr>role = ''user'',
               content = truncate_observation (join_lines splitted) default_max_chars\<rparr>)"
| "get_observation_message (BrowserOutputObservation content') =
     Some \<lparr>role = ''user'',
           content = ''OBSERVATION:\<newline>'' @ truncate_observation content' default_max_chars\<rparr>"
| "get_observation_message OtherObservation = None"

fun event_message :: "Event \<Rightarrow> Message option" where
  "event_message (ActionEvent source action) = get_action_message source action"
| "event_message (ObservationEvent obs) = get_observation_message obs"

text \<open>
  \<open>next((m for m in reversed(messages) if m['role'] == 'user'), None)\<close>: the last message
  of the user, here by its position in the list, since \<open>_get_messages\<close> goes on to change
  that message in place.
\<close>

fun latest_user_index :: "Message list \<Rightarrow> nat option" where
  "latest_user_index [] = None"
| "latest_user_index (m # ms) =
     (case latest_user_index ms of
        Some i \<Rightarrow> Some (Suc i)
      | None \<Rightarrow> if role m = ''user'' then Some 0 else None)"

definition latest_user_message :: "Message list \<Rightarrow> Message option" where
  "latest_user_message messages = map_option (\<lambda>i. messages ! i) (latest_user_index messages)"

definition reminder :: "State \<Rightarrow> string" where
  "reminder state =
     ''\<newline>\<newline>ENVIRONMENT REMINDER: You have '' @
     str_int (max_iterations state - iteration state) @
     '' turns left to complete the task.''"

text \<open>
  \<open>_get_messages\<close>: first the list built from the two prompt texts and the history
  (\<open>history_messages\<close>), then the reminder. The messages are fresh dictionaries, so the
  \<open>+=\<close> on the latest user message changes the list that is returned and nothing of the
  state.
\<close>

definition history_messages :: "'l Agent \<Rightarrow> State \<Rightarrow> Message list" where
  "history_messages agent state =
     [\<lparr>role = ''system'', content = system_message agent\<rparr>,
      \<lparr>role = ''user'', content = in_context_example agent\<rparr>] @
     List.map_filter event_message (history state)"

definition get_messages :: "'l Agent \<Rightarrow> State \<Rightarrow> Message list" where
  "get_messages agent state =
     (let messages = history_messages agent state
      in case latest_user_index messages of
           None \<Rightarrow> messages
         | Some i \<Rightarrow>
             if strip (content (messages ! i)) = ''/exit'' then messages
             else messages[i := (messages ! i)\<lparr>content :=
                    content (messages ! i) @ reminder state\<rparr>])"

section \<open>The step\<close>

text \<open>The four searches of \<open>step\<close>, each with its pattern.\<close>

definition finish_search :: "string \<Rightarrow> (nat \<times> string) option" where
  "finish_search action_str = re_search Greedy ''<finish>'' ''</finish>'' action_str"

definition bash_search :: "string \<Rightarrow> (nat \<times> string) option" where
  "bash_search action_str = re_search Lazy ''<execute_bash>'' ''</execute_bash>'' action_str"

definition ipython_search :: "string \<Rightarrow> (nat \<times> string) option" where
  "ipython_search action_str =
     re_search Lazy ''<execute_ipython>'' ''</execute_ipython>'' action_str"

definition browse_search :: "string \<Rightarrow> (nat \<times> string) option" where
  "browse_search action_str =
     re_search Greedy ''<execute_browse>'' ''</execute_browse>'' action_str"

text \<open>
  The classification of the repaired response text (\<open>action_str\<close>), the last part of
  \<open>step\<close>: the chain of \<open>re.search\<close> tests and the action each of them builds.
\<close>

definition classify :: "string \<Rightarrow> Action" where
  "classify action_str =
     (case finish_search action_str of
        Some (i, body) \<Rightarrow>
          AgentFinishAction (Some (strip (replace_by_empty
            (group0 ''<finish>'' ''</finish>'' body) action_str)))
      | None \<Rightarrow>
     (case bash_search action_str of
        Some (i, body) \<Rightarrow>
          (let thought = strip (replace_by_empty
                 (group0 ''<execute_bash>'' ''</execute_bash>'' body) action_str);
               command_group = strip body
           in if strip command_group = ''exit'' then AgentFinishAction None
              else CmdRunAction command_group thought)
      | None \<Rightarrow>
     (case ipython_search action_str of
        Some (i, body) \<Rightarrow>
          (let code_group = strip body;
               thought = strip (replace_by_empty
                 (group0 ''<execute_ipython>'' ''</execute_ipython>'' body) action_str)
           in IPythonRunCellAction code_group thought jupyter_kernel_init_code)
      | None \<Rightarrow>
     (case browse_search action_str of
        Some (i, body) \<Rightarrow>
          (let browse_actions = strip body;
               thought = strip (replace_by_empty
                 (group0 ''<execute_browse>'' ''</execute_browse>'' body) action_str)
           in BrowseInteractiveAction browse_actions thought)
      | None \<Rightarrow> MessageAction action_str True))))"

definition stop_sequences :: "string list" where
  "stop_sequences = [''</execute_ipython>'', ''</execute_bash>'', ''</execute_browse>'']"

definition chars_sent :: "Message list \<Rightarrow> int" where
  "chars_sent messages = sum_list (map (\<lambda>message. int (length (content message))) messages)"

text \<open>
  \<open>step\<close> returns the action, or the error that was raised; with the action come the
  state, whose counter \<open>num_of_chars\<close> the step updates, and the state of the model client.
\<close>

definition step :: "'l Agent \<Rightarrow> 'l \<Rightarrow> State \<Rightarrow> error + (Action \<times> State \<times> 'l)" where
  "step agent llm state =
     (let messages = get_messages agent state
      in if (case latest_user_message messages of
               None \<Rightarrow> False
             | Some m \<Rightarrow> strip (content m) = ''/exit'')
         then Inr (AgentFinishAction None, state, llm)
         else
           (case completion agent llm messages stop_sequences 0 of
              (response, llm') \<Rightarrow>
                (case parse_response response of
                   Inl e \<Rightarrow> Inl e
                 | Inr action_str \<Rightarrow>
                     Inr (classify action_str,
                          state\<lparr>num_of_chars := num_of_chars state +
                            (chars_sent messages + int (length action_str))\<rparr>,
                          llm'))))"

section \<open>Spans of a text\<close>

text \<open>
  Ways to say where a span lies in a text \<open>s\<close>: no opening tag starts before position
  \<open>i\<close>; the span at \<open>i\<close> runs to the nearest closing tag (a lazy span); the span at
  \<open>i\<close> runs to the last closing tag of the text (a greedy span).
\<close>

abbreviation first_opening_at :: "string \<Rightarrow> string \<Rightarrow> nat \<Rightarrow> bool" where
  "first_opening_at op s i \<equiv> (\<forall>pre' rest'. s = pre' @ op @ rest' \<longrightarrow> i \<le> length pre')"

abbreviation lazy_span :: "string \<Rightarrow> string \<Rightarrow> string \<Rightarrow> nat \<Rightarrow> string \<Rightarrow> bool" where
  "lazy_span op cl s i body \<equiv>
     (\<exists>pre post. s = pre @ op @ body @ cl @ post \<and> length pre = i \<and>
        first_opening_at op s i \<and>
        (\<forall>b' p'. body @ cl @ post = b' @ cl @ p' \<longrightarrow> length body \<le> length b'))"

abbreviation greedy_span :: "string \<Rightarrow> string \<Rightarrow> string \<Rightarrow> nat \<Rightarrow> string \<Rightarrow> bool" where
  "greedy_span op cl s i body \<equiv>
     (\<exists>pre post. s = pre @ op @ body @ cl @ post \<and> length pre = i \<and>
        first_opening_at op s i \<and>
        (\<forall>b' p'. body @ cl @ post = b' @ cl @ p' \<longrightarrow> length b' \<le> length body))"

text \<open>An opening tag of \<open>lang\<close> without its closing tag: the test of \<open>parse_response\<close>.\<close>

abbreviation unterminated :: "string \<Rightarrow> string \<Rightarrow> bool" where
  "unterminated lang action \<equiv>
     contains (open_tag lang) action \<and> \<not> contains (close_tag lang) action"

section \<open>An agent and two states to run the step on\<close>

text \<open>
  An agent whose client always answers with an unterminated command and counts its calls,
  a state whose latest user message is a task, and a state whose latest user message is
  \<open>/exit\<close> with blanks around it.
\<close>

abbreviation counting_agent :: "nat Agent" where
  "counting_agent \<equiv>
     \<lparr>system_message = ''S'', in_context_example = ''E'',
      completion = (\<lambda>calls messages stop temperature. ([''<execute_bash>ls''], Suc calls))\<rparr>"

abbreviation task_state :: State where
  "task_state \<equiv>
     \<lparr>history = [ActionEvent (Some USER) (MessageAction ''fix the bug'' False)],
      iteration = 2, max_iterations = 10, num_of_chars = 0\<rparr>"

abbreviation exit_state :: State where
  "exit_state \<equiv>
     \<lparr>history = [ActionEvent (Some USER) (MessageAction '' /exit '' False)],
      iteration = 2, max_iterations = 10, num_of_chars = 0\<rparr>"

section \<open>Facts about the string functions and the search\<close>

lemma startswith_iff: "startswith p s \<longleftrightarrow> (\<exists>t. s = p @ t)"
  by (induction p s rule: startswith.induct) auto

lemma startswith_append [simp]: "startswith p (p @ t)"
  by (simp add: startswith_iff)

lemma contains_iff: "contains sub s \<longleftrightarrow> (\<exists>a b. s = a @ sub @ b)"
proof (induction s)
  case Nil
  then show ?case by (auto simp: startswith_iff)
next
  case (Cons c cs)
  show ?case
  proof
    assume "contains sub (c # cs)"
    then consider "startswith sub (c # cs)" | "contains sub cs" by auto
    then show "\<exists>a b. c # cs = a @ sub @ b"
    proof cases
      case 1
      then obtain t where "c # cs = sub @ t" by (auto simp: startswith_iff)
      then have "c # cs = [] @ sub @ t" by simp
      then show ?thesis by blast
    next
      case 2
      then obtain a b where "cs = a @ sub @ b" using Cons.IH by blast
      then have "c # cs = (c # a) @ sub @ b" by simp
      then show ?thesis by blast
    qed
  next
    assume "\<exists>a b. c # cs = a @ sub @ b"
    then obtain a b where ab: "c # cs = a @ sub @ b" by blast
    show "contains sub (c # cs)"
    proof (cases a)
      case Nil
      then have "startswith sub (c # cs)" using ab by (simp add: startswith_iff)
      then show ?thesis by simp
    next
      case (Cons x a')
      then have "cs = a' @ sub @ b" using ab by simp
      then show ?thesis using Cons.IH by auto
    qed
  qed
qed

lemma match_body_sound: "match_body q cl s = Some b \<Longrightarrow> \<exists>post. s = b @ cl @ post"
proof (induction q cl s arbitrary: b rule: match_body.induct)
  case (1 q cl)
  then show ?case by (auto simp: startswith_iff split: if_splits)
next
  case (2 cl c cs)
  then show ?case by (auto simp: startswith_iff split: if_splits)
next
  case (3 cl c cs)
  show ?case
  proof (cases "match_body Greedy cl cs")
    case None
    then have "b = []" "startswith cl (c # cs)"
      using "3.prems" by (auto split: if_splits)
    then show ?thesis by (simp add: startswith_iff)
  next
    case (Some b0)
    then have "b = c # b0" using "3.prems" by simp
    moreover obtain post where "cs = b0 @ cl @ post" using "3.IH" Some by blast
    ultimately show ?thesis by simp
  qed
qed

lemma match_body_None: "match_body q cl s = None \<longleftrightarrow> \<not> contains cl s"
  by (induction q cl s rule: match_body.induct) (auto split: option.splits)

lemma match_body_lazy_shortest:
  "match_body Lazy cl s = Some b \<Longrightarrow> s = b' @ cl @ post' \<Longrightarrow> length b \<le> length b'"
proof (induction s arbitrary: b b')
  case Nil
  then show ?case by (auto split: if_splits)
next
  case (Cons c cs)
  show ?case
  proof (cases "startswith cl (c # cs)")
    case True
    then have "b = []" using Cons.prems(1) by simp
    then show ?thesis by simp
  next
    case False
    then obtain b0 where b0: "match_body Lazy cl cs = Some b0" "b = c # b0"
      using Cons.prems(1) by auto
    have "b' \<noteq> []" using False Cons.prems(2) by (auto simp: startswith_iff)
    then obtain b'' where b'': "b' = c # b''" "cs = b'' @ cl @ post'"
      using Cons.prems(2) by (cases b') auto
    from Cons.IH [OF b0(1) b''(2)] show ?thesis using b0 b'' by simp
  qed
qed

lemma match_body_greedy_longest:
  "match_body Greedy cl s = Some b \<Longrightarrow> s = b' @ cl @ post' \<Longrightarrow> length b' \<le> length b"
proof (induction s arbitrary: b b')
  case Nil
  then show ?case by (auto split: if_splits)
next
  case (Cons c cs)
  show ?case
  proof (cases "match_body Greedy cl cs")
    case None
    then have no: "\<not> contains cl cs" by (simp add: match_body_None)
    have "b' = []"
    proof (cases b')
      case (Cons x b'')
      then have "cs = b'' @ cl @ post'" using Cons.prems(2) by simp
      then show ?thesis using no contains_iff by blast
    qed simp
    then show ?thesis by simp
  next
    case (Some b0)
    then have b: "b = c # b0" using Cons.prems(1) by simp
    show ?thesis
    proof (cases b')
      case Nil
      then show ?thesis by simp
    next
      case (Cons x b'')
      then have "cs = b'' @ cl @ post'" using Cons.prems(2) by simp
      from Cons.IH [OF Some this] show ?thesis using b Cons by simp
    qed
  qed
qed


lemma match_at_Some:
  "match_at q op cl s = Some b \<longleftrightarrow>
     (\<exists>rest. s = op @ rest \<and> match_body q cl rest = Some b)"
  by (auto simp: match_at_def startswith_iff)

lemma match_at_None:
  "match_at q op cl s = None \<longleftrightarrow> \<not> (\<exists>b post. s = op @ b @ cl @ post)"
proof -
  have "match_at q op cl s = None \<longleftrightarrow> \<not> (\<exists>rest. s = op @ rest \<and> contains cl rest)"
    by (auto simp: match_at_def startswith_iff match_body_None)
  then show ?thesis
    by (simp add: contains_iff) blast
qed

lemma search_from_sound:
  "search_from q op cl i s = Some (j, b) \<Longrightarrow>
     \<exists>pre post. s = pre @ op @ b @ cl @ post \<and> j = i + length pre \<and>
       match_body q cl (b @ cl @ post) = Some b \<and>
       (\<forall>pre' b' post'. s = pre' @ op @ b' @ cl @ post' \<longrightarrow> length pre \<le> length pre')"
proof (induction s arbitrary: i)
  case Nil
  then obtain rest where r: "[] = op @ rest" "match_body q cl rest = Some b" "j = i"
    by (auto simp: match_at_Some)
  then obtain post where "rest = b @ cl @ post"
    using match_body_sound by blast
  with r have "[] = [] @ op @ b @ cl @ post \<and> j = i + length ([]::string) \<and>
       match_body q cl (b @ cl @ post) = Some b" by simp
  then show ?case by (metis le0 list.size(3))
next
  case (Cons c cs)
  show ?case
  proof (cases "match_at q op cl (c # cs)")
    case (Some b0)
    then have jb: "j = i" "b0 = b" using Cons.prems by auto
    from Some obtain rest where r: "c # cs = op @ rest" "match_body q cl rest = Some b"
      unfolding jb match_at_Some by blast
    then obtain post where "rest = b @ cl @ post"
      using match_body_sound by blast
    with r jb have "c # cs = [] @ op @ b @ cl @ post \<and> j = i + length ([]::string) \<and>
       match_body q cl (b @ cl @ post) = Some b" by simp
    then show ?thesis by (metis le0 list.size(3))
  next
    case None
    then have "search_from q op cl (Suc i) cs = Some (j, b)"
      using Cons.prems by simp
    from Cons.IH [OF this] obtain pre post where
      p: "cs = pre @ op @ b @ cl @ post" "j = Suc i + length pre"
         "match_body q cl (b @ cl @ post) = Some b"
         "\<forall>pre' b' post'. cs = pre' @ op @ b' @ cl @ post' \<longrightarrow> length pre \<le> length pre'"
      by blast
    have left: "length (c # pre) \<le> length pre'" if d: "c # cs = pre' @ op @ b' @ cl @ post'"
      for pre' b' post'
    proof (cases pre')
      case Nil
      then have "\<exists>b post. c # cs = op @ b @ cl @ post" using d by auto
      then show ?thesis using None match_at_None by blast
    next
      case (Cons x pre'')
      then have "cs = pre'' @ op @ b' @ cl @ post'" using d by simp
      then have "length pre \<le> length pre''" using p(4) by blast
      then show ?thesis using Cons by simp
    qed
    have "c # cs = (c # pre) @ op @ b @ cl @ post \<and> j = i + length (c # pre) \<and>
       match_body q cl (b @ cl @ post) = Some b"
      using p by simp
    then show ?thesis using left by blast
  qed
qed

lemma search_from_None:
  "search_from q op cl i s = None \<longleftrightarrow> \<not> (\<exists>pre b post. s = pre @ op @ b @ cl @ post)"
proof (induction s arbitrary: i)
  case Nil
  show ?case by (simp add: match_at_None)
next
  case (Cons c cs)
  have split: "(\<exists>pre b post. c # cs = pre @ op @ b @ cl @ post) \<longleftrightarrow>
      (\<exists>b post. c # cs = op @ b @ cl @ post) \<or> (\<exists>pre b post. cs = pre @ op @ b @ cl @ post)"
  proof
    assume "\<exists>pre b post. c # cs = pre @ op @ b @ cl @ post"
    then obtain pre b post where d: "c # cs = pre @ op @ b @ cl @ post" by blast
    show "(\<exists>b post. c # cs = op @ b @ cl @ post) \<or> (\<exists>pre b post. cs = pre @ op @ b @ cl @ post)"
    proof (cases pre)
      case Nil
      then show ?thesis using d by auto
    next
      case (Cons x pre')
      then have "cs = pre' @ op @ b @ cl @ post" using d by simp
      then show ?thesis by blast
    qed
  next
    assume "(\<exists>b post. c # cs = op @ b @ cl @ post) \<or> (\<exists>pre b post. cs = pre @ op @ b @ cl @ post)"
    then show "\<exists>pre b post. c # cs = pre @ op @ b @ cl @ post"
    proof
      assume "\<exists>b post. c # cs = op @ b @ cl @ post"
      then obtain b post where "c # cs = [] @ op @ b @ cl @ post" by auto
      then show ?thesis by blast
    next
      assume "\<exists>pre b post. cs = pre @ op @ b @ cl @ post"
      then obtain pre b post where "c # cs = (c # pre) @ op @ b @ cl @ post" by auto
      then show ?thesis by blast
    qed
  qed
  show ?case
  proof (cases "match_at q op cl (c # cs)")
    case None
    have nohere: "\<not> (\<exists>b post. c # cs = op @ b @ cl @ post)"
      using None match_at_None by blast
    have "search_from q op cl i (c # cs) = search_from q op cl (Suc i) cs"
      using None by simp
    then show ?thesis
      unfolding split using nohere Cons.IH [of "Suc i"] by simp
  next
    case (Some b)
    then have "\<exists>b post. c # cs = op @ b @ cl @ post"
      using match_at_None by (metis option.distinct(1))
    then show ?thesis unfolding split using Some by simp
  qed
qed

lemma tag_pair_iff: "tag_pair op cl s \<longleftrightarrow> (\<exists>pre b post. s = pre @ op @ b @ cl @ post)"
proof -
  have here: "startswith op t \<and> contains cl (drop (length op) t) \<longleftrightarrow>
      match_at Lazy op cl t \<noteq> None" for t
    using match_body_None [of Lazy cl "drop (length op) t"]
    by (auto simp: match_at_def)
  have "tag_pair op cl s \<longleftrightarrow> search_from Lazy op cl 0 s \<noteq> None"
  proof (induction s)
    case Nil
    show ?case using here [of "[]"] by auto
  next
    case (Cons c cs)
    have "search_from Lazy op cl 0 cs \<noteq> None \<longleftrightarrow> search_from Lazy op cl (Suc 0) cs \<noteq> None"
      by (simp add: search_from_None)
    then show ?case using here [of "c # cs"] Cons.IH by (auto split: option.splits)
  qed
  then show ?thesis by (simp add: search_from_None)
qed

lemma re_search_None: "re_search q op cl s = None \<longleftrightarrow> \<not> tag_pair op cl s"
  by (simp add: re_search_def search_from_None tag_pair_iff)


lemma first_opening:
  assumes s: "s = pre @ op @ b @ cl @ post"
    and left: "\<forall>pre' b' post'. s = pre' @ op @ b' @ cl @ post' \<longrightarrow> length pre \<le> length pre'"
    and d: "s = pre' @ op @ rest'"
  shows "length pre \<le> length pre'"
proof (rule ccontr)
  assume "\<not> length pre \<le> length pre'"
  then have short: "length pre' + length op \<le> length (pre @ op @ b)" by simp
  have "rest' = drop (length pre' + length op) s"
    using d by (simp add: drop_append)
  also have "\<dots> = drop (length pre' + length op) ((pre @ op @ b) @ cl @ post)"
    using s by simp
  also have "\<dots> = drop (length pre' + length op) (pre @ op @ b) @ cl @ post"
    using short by (simp only: drop_append) simp
  finally have "s = pre' @ op @ drop (length pre' + length op) (pre @ op @ b) @ cl @ post"
    using d by simp
  then have "length pre \<le> length pre'" using left by blast
  then show False using \<open>\<not> length pre \<le> length pre'\<close> by simp
qed

lemma re_search_Some:
  assumes "re_search q op cl s = Some (i, b)"
  shows "\<exists>pre post. s = pre @ op @ b @ cl @ post \<and> i = length pre \<and>
       match_body q cl (b @ cl @ post) = Some b \<and>
       (\<forall>pre' rest'. s = pre' @ op @ rest' \<longrightarrow> length pre \<le> length pre')"
proof -
  from assms obtain pre post where
    p: "s = pre @ op @ b @ cl @ post" "i = length pre"
       "match_body q cl (b @ cl @ post) = Some b"
       "\<forall>pre' b' post'. s = pre' @ op @ b' @ cl @ post' \<longrightarrow> length pre \<le> length pre'"
    unfolding re_search_def using search_from_sound [of q op cl 0 s i b] by auto
  have "\<forall>pre' rest'. s = pre' @ op @ rest' \<longrightarrow> length pre \<le> length pre'"
    using first_opening [OF p(1) p(4)] by blast
  with p show ?thesis by blast
qed

lemma greedy_last_closing:
  assumes m: "match_body Greedy cl (b @ cl @ post) = Some b" and cl: "cl \<noteq> []"
  shows "\<not> contains cl post"
proof
  assume "contains cl post"
  then obtain x y where "post = x @ cl @ y" by (auto simp: contains_iff)
  then have "b @ cl @ post = (b @ cl @ x) @ cl @ y" by simp
  from match_body_greedy_longest [OF m this] show False using cl by simp
qed

lemma replace_absent: "\<not> contains old s \<Longrightarrow> replace_by_empty old s = s"
  by (induction s) auto

lemma replace_first:
  assumes "old \<noteq> []"
    and "\<forall>pre' rest'. pre @ old @ post = pre' @ old @ rest' \<longrightarrow> length pre \<le> length pre'"
  shows "replace_by_empty old (pre @ old @ post) = pre @ replace_by_empty old post"
  using assms(2)
proof (induction pre)
  case Nil
  obtain c cs where c: "old @ post = c # cs" using assms(1) by (cases old) auto
  have "startswith old (c # cs)" using c by (metis startswith_append)
  then have "replace_by_empty old (c # cs) = replace_by_empty old (drop (length old) (c # cs))"
    using assms(1) by simp
  then show ?case using c by (metis append_Nil append_eq_conv_conj)
next
  case (Cons p pre)
  have "\<not> startswith old (p # pre @ old @ post)"
  proof
    assume "startswith old (p # pre @ old @ post)"
    then obtain t where "(p # pre) @ old @ post = [] @ old @ t"
      by (auto simp: startswith_iff)
    then have "length (p # pre) \<le> length ([]::string)" using Cons.prems by blast
    then show False by simp
  qed
  moreover have "\<forall>pre' rest'. pre @ old @ post = pre' @ old @ rest' \<longrightarrow> length pre \<le> length pre'"
  proof (intro allI impI)
    fix pre' rest' assume "pre @ old @ post = pre' @ old @ rest'"
    then have "(p # pre) @ old @ post = (p # pre') @ old @ rest'" by simp
    then have "length (p # pre) \<le> length (p # pre')" using Cons.prems by blast
    then show "length pre \<le> length pre'" by simp
  qed
  ultimately show ?case using Cons.IH by simp
qed

lemma greedy_span_removed:
  assumes r: "re_search Greedy op cl s = Some (i, b)" and op: "op \<noteq> []" and cl: "cl \<noteq> []"
  shows "\<exists>pre post. s = pre @ op @ b @ cl @ post \<and> i = length pre \<and>
       (\<forall>pre' rest'. s = pre' @ op @ rest' \<longrightarrow> length pre \<le> length pre') \<and>
       \<not> contains cl post \<and>
       replace_by_empty (group0 op cl b) s = pre @ post"
proof -
  from re_search_Some [OF r] obtain pre post where
    p: "s = pre @ op @ b @ cl @ post" "i = length pre"
       "match_body Greedy cl (b @ cl @ post) = Some b"
       "\<forall>pre' rest'. s = pre' @ op @ rest' \<longrightarrow> length pre \<le> length pre'"
    by blast
  have last: "\<not> contains cl post" using greedy_last_closing [OF p(3) cl] .
  define old where "old = op @ b @ cl"
  have old: "old \<noteq> []" using op by (simp add: old_def)
  have s: "s = pre @ old @ post" using p(1) by (simp add: old_def)
  have "\<forall>pre' rest'. pre @ old @ post = pre' @ old @ rest' \<longrightarrow> length pre \<le> length pre'"
  proof (intro allI impI)
    fix pre' rest' assume "pre @ old @ post = pre' @ old @ rest'"
    then have "s = pre' @ op @ (b @ cl @ rest')" using s by (simp add: old_def)
    then show "length pre \<le> length pre'" using p(4) by blast
  qed
  from replace_first [OF old this]
  have "replace_by_empty old s = pre @ replace_by_empty old post" using s by simp
  moreover have "\<not> contains old post"
  proof
    assume "contains old post"
    then obtain x y where "post = x @ old @ y" by (auto simp: contains_iff)
    then have "post = (x @ op @ b) @ cl @ y" by (simp add: old_def)
    then show False using last contains_iff by blast
  qed
  ultimately have "replace_by_empty old s = pre @ post" by (simp add: replace_absent)
  then show ?thesis using p last unfolding old_def group0_def by blast
qed

section \<open>Properties of truncation\<close>

lemma truncation_marker_length: "length truncation_marker = 47"
  by (simp add: truncation_marker_def)

text \<open>
  C2, as amended. For every \<open>max_chars \<ge> 2\<close>: a text no longer than \<open>max_chars\<close> is
  returned as it is; a longer text is cut to its first \<open>max_chars div 2\<close> characters, the
  marker, and its last \<open>max_chars div 2\<close> characters, and the result has
  \<open>2 * (max_chars div 2) + len(marker)\<close> characters. That is \<open>max_chars + len(marker)\<close>
  when \<open>max_chars\<close> is even and one less when it is odd.
\<close>

theorem truncate_observation_shape:
  assumes "2 \<le> max_chars"
  shows "(int (length text) \<le> max_chars \<longrightarrow> truncate_observation text max_chars = text) \<and>
         (max_chars < int (length text) \<longrightarrow>
            truncate_observation text max_chars =
              take (nat (max_chars div 2)) text @ truncation_marker @
              drop (length text - nat (max_chars div 2)) text \<and>
            length (take (nat (max_chars div 2)) text) = nat (max_chars div 2) \<and>
            length (drop (length text - nat (max_chars div 2)) text) = nat (max_chars div 2) \<and>
            int (length (truncate_observation text max_chars)) =
              2 * (max_chars div 2) + int (length truncation_marker) \<and>
            (even max_chars \<longrightarrow>
               int (length (truncate_observation text max_chars)) =
                 max_chars + int (length truncation_marker)) \<and>
            (odd max_chars \<longrightarrow>
               int (length (truncate_observation text max_chars)) =
                 max_chars - 1 + int (length truncation_marker)))"
proof (intro conjI impI)
  assume "int (length text) \<le> max_chars"
  then show "truncate_observation text max_chars = text"
    by (simp add: truncate_observation_def)
next
  assume long: "max_chars < int (length text)"
  define h where "h = max_chars div 2"
  have h_pos: "1 \<le> h" and h_le: "2 * h \<le> max_chars"
    using assms by (auto simp: h_def)
  have h_len: "nat h \<le> length text"
    using long h_le h_pos by linarith
  have neg: "\<not> 0 \<le> - h"
    using h_pos by simp
  show shape: "truncate_observation text max_chars =
      take (nat (max_chars div 2)) text @ truncation_marker @
      drop (length text - nat (max_chars div 2)) text"
    using long neg
    by (simp add: truncate_observation_def Let_def slice_to_def slice_from_def
        h_def [symmetric])
  show first: "length (take (nat (max_chars div 2)) text) = nat (max_chars div 2)"
    using h_len by (simp add: h_def)
  show last: "length (drop (length text - nat (max_chars div 2)) text) = nat (max_chars div 2)"
    using h_len by (simp add: h_def)
  show total: "int (length (truncate_observation text max_chars)) =
      2 * (max_chars div 2) + int (length truncation_marker)"
    using h_len h_pos unfolding shape h_def [symmetric] by simp
  show "int (length (truncate_observation text max_chars)) =
      max_chars + int (length truncation_marker)" if "even max_chars"
    using that unfolding total by auto
  show "int (length (truncate_observation text max_chars)) =
      max_chars - 1 + int (length truncation_marker)" if "odd max_chars"
  proof -
    have "2 * (max_chars div 2) = max_chars - 1"
      using that by (metis odd_two_times_div_two_succ add_diff_cancel_right')
    then show ?thesis
      unfolding total by simp
  qed
qed

theorem truncate_observation_shape_witness:
  "truncate_observation ''abcdefgh'' 4 = ''ab'' @ truncation_marker @ ''gh'' \<and>
   int (length (truncate_observation ''abcdefgh'' 4)) = 4 + int (length truncation_marker) \<and>
   truncate_observation ''abcd'' 4 = ''abcd''"
  using truncate_observation_shape [of 4 "''abcdefgh''"]
    truncate_observation_shape [of 4 "''abcd''"]
  by simp

theorem truncate_observation_odd_counterexample:
  "truncate_observation ''abcd'' 3 = ''a'' @ truncation_marker @ ''d'' \<and>
   3 < int (length ''abcd'') \<and>
   int (length (truncate_observation ''abcd'' 3)) \<noteq> 3 + int (length truncation_marker)"
  by (simp add: truncate_observation_def slice_to_def slice_from_def)

section \<open>The spans that the classification extracts\<close>

lemma re_search_lazy_span:
  assumes "re_search Lazy op cl s = Some (i, body)"
  shows "lazy_span op cl s i body"
proof -
  from re_search_Some [OF assms] obtain pre post where
    p: "s = pre @ op @ body @ cl @ post" "i = length pre"
       "match_body Lazy cl (body @ cl @ post) = Some body"
       "\<forall>pre' rest'. s = pre' @ op @ rest' \<longrightarrow> length pre \<le> length pre'"
    by blast
  have "\<forall>b' p'. body @ cl @ post = b' @ cl @ p' \<longrightarrow> length body \<le> length b'"
    using match_body_lazy_shortest [OF p(3)] by blast
  with p show ?thesis by blast
qed

lemma re_search_greedy_span:
  assumes "re_search Greedy op cl s = Some (i, body)"
  shows "greedy_span op cl s i body"
proof -
  from re_search_Some [OF assms] obtain pre post where
    p: "s = pre @ op @ body @ cl @ post" "i = length pre"
       "match_body Greedy cl (body @ cl @ post) = Some body"
       "\<forall>pre' rest'. s = pre' @ op @ rest' \<longrightarrow> length pre \<le> length pre'"
    by blast
  have "\<forall>b' p'. body @ cl @ post = b' @ cl @ p' \<longrightarrow> length b' \<le> length body"
    using match_body_greedy_longest [OF p(3)] by blast
  with p show ?thesis by blast
qed

text \<open>
  C1, as amended. The command and the code pattern match lazily: the span starts at the
  first opening tag of the text and ends with the nearest closing tag behind it, so the
  body is the shortest one. The finish and the browse pattern match greedily: the span
  starts at the first opening tag and ends with the last closing tag of the text, so that
  for a text with two finish tag pairs the span runs from the first opening tag to the
  closing tag of the second pair. Each search succeeds exactly when the text has a pair
  of its tags.
\<close>

theorem tag_span_extents:
  "(\<forall>i body. bash_search s = Some (i, body) \<longrightarrow>
      lazy_span ''<execute_bash>'' ''</execute_bash>'' s i body) \<and>
   (\<forall>i body. ipython_search s = Some (i, body) \<longrightarrow>
      lazy_span ''<execute_ipython>'' ''</execute_ipython>'' s i body) \<and>
   (\<forall>i body. finish_search s = Some (i, body) \<longrightarrow>
      greedy_span ''<finish>'' ''</finish>'' s i body) \<and>
   (\<forall>i body. browse_search s = Some (i, body) \<longrightarrow>
      greedy_span ''<execute_browse>'' ''</execute_browse>'' s i body) \<and>
   (tag_pair ''<execute_bash>'' ''</execute_bash>'' s \<longleftrightarrow> bash_search s \<noteq> None) \<and>
   (tag_pair ''<execute_ipython>'' ''</execute_ipython>'' s \<longleftrightarrow> ipython_search s \<noteq> None) \<and>
   (tag_pair ''<finish>'' ''</finish>'' s \<longleftrightarrow> finish_search s \<noteq> None) \<and>
   (tag_pair ''<execute_browse>'' ''</execute_browse>'' s \<longleftrightarrow> browse_search s \<noteq> None)"
proof (intro conjI allI impI)
  fix i body
  show "lazy_span ''<execute_bash>'' ''</execute_bash>'' s i body"
    if "bash_search s = Some (i, body)"
    using that unfolding bash_search_def by (rule re_search_lazy_span)
  show "lazy_span ''<execute_ipython>'' ''</execute_ipython>'' s i body"
    if "ipython_search s = Some (i, body)"
    using that unfolding ipython_search_def by (rule re_search_lazy_span)
  show "greedy_span ''<finish>'' ''</finish>'' s i body"
    if "finish_search s = Some (i, body)"
    using that unfolding finish_search_def by (rule re_search_greedy_span)
  show "greedy_span ''<execute_browse>'' ''</execute_browse>'' s i body"
    if "browse_search s = Some (i, body)"
    using that unfolding browse_search_def by (rule re_search_greedy_span)
next
  show "tag_pair ''<execute_bash>'' ''</execute_bash>'' s \<longleftrightarrow> bash_search s \<noteq> None"
    by (simp add: bash_search_def re_search_None)
  show "tag_pair ''<execute_ipython>'' ''</execute_ipython>'' s \<longleftrightarrow> ipython_search s \<noteq> None"
    by (simp add: ipython_search_def re_search_None)
  show "tag_pair ''<finish>'' ''</finish>'' s \<longleftrightarrow> finish_search s \<noteq> None"
    by (simp add: finish_search_def re_search_None)
  show "tag_pair ''<execute_browse>'' ''</execute_browse>'' s \<longleftrightarrow> browse_search s \<noteq> None"
    by (simp add: browse_search_def re_search_None)
qed

lemma two_finish_eval:
  "finish_search ''<finish>a</finish>b<finish>c</finish>'' = Some (0, ''a</finish>b<finish>c'')"
  by (simp add: finish_search_def re_search_def match_at_def)

theorem tag_span_extents_witness:
  "finish_search ''<finish>a</finish>b<finish>c</finish>'' = Some (0, ''a</finish>b<finish>c'') \<and>
   greedy_span ''<finish>'' ''</finish>'' ''<finish>a</finish>b<finish>c</finish>'' 0
     ''a</finish>b<finish>c''"
  using tag_span_extents [of "''<finish>a</finish>b<finish>c</finish>''"] two_finish_eval
  by blast

theorem finish_span_counterexample:
  "tag_pair ''<finish>'' ''</finish>'' ''<finish>a</finish>'' \<and>
   tag_pair ''<finish>'' ''</finish>'' ''<finish>c</finish>'' \<and>
   finish_search (''<finish>a</finish>'' @ ''b'' @ ''<finish>c</finish>'') =
     Some (0, ''a</finish>b<finish>c'') \<and>
   group0 ''<finish>'' ''</finish>'' ''a</finish>b<finish>c'' \<noteq> ''<finish>a</finish>'' \<and>
   re_search Lazy ''<finish>'' ''</finish>'' (''<finish>a</finish>'' @ ''b'' @ ''<finish>c</finish>'') =
     Some (0, ''a'') \<and>
   classify (''<finish>a</finish>'' @ ''b'' @ ''<finish>c</finish>'') = AgentFinishAction (Some [])"
  by (simp add: classify_def finish_search_def re_search_def match_at_def group0_def strip_def)

section \<open>The order of the classification\<close>

lemma search_cases:
  "re_search q op cl s = None \<and> \<not> tag_pair op cl s \<or>
   (\<exists>i body. re_search q op cl s = Some (i, body) \<and> tag_pair op cl s)"
  using re_search_None [of q op cl s] by (cases "re_search q op cl s") auto

lemma classify_finish:
  assumes "tag_pair ''<finish>'' ''</finish>'' s"
  shows "\<exists>pre body post. s = pre @ ''<finish>'' @ body @ ''</finish>'' @ post \<and>
       finish_search s = Some (length pre, body) \<and>
       classify s = AgentFinishAction (Some (strip (pre @ post)))"
proof -
  from assms obtain i body where f: "finish_search s = Some (i, body)"
    using search_cases [of Greedy "''<finish>''" "''</finish>''" s]
    by (auto simp: finish_search_def)
  then have r: "re_search Greedy ''<finish>'' ''</finish>'' s = Some (i, body)"
    by (simp add: finish_search_def)
  from greedy_span_removed [OF r] obtain pre post where
    p: "s = pre @ ''<finish>'' @ body @ ''</finish>'' @ post" "i = length pre"
       "replace_by_empty (group0 ''<finish>'' ''</finish>'' body) s = pre @ post"
    by auto
  have "classify s = AgentFinishAction (Some (strip (pre @ post)))"
    using f p(3) by (simp add: classify_def)
  with p f show ?thesis by blast
qed

lemma classify_no_finish:
  assumes "\<not> tag_pair ''<finish>'' ''</finish>'' s"
  shows "classify s =
     (case bash_search s of
        Some (i, body) \<Rightarrow>
          if strip (strip body) = ''exit'' then AgentFinishAction None
          else CmdRunAction (strip body) (strip (replace_by_empty
                 (group0 ''<execute_bash>'' ''</execute_bash>'' body) s))
      | None \<Rightarrow>
     (case ipython_search s of
        Some (i, body) \<Rightarrow>
          IPythonRunCellAction (strip body) (strip (replace_by_empty
                 (group0 ''<execute_ipython>'' ''</execute_ipython>'' body) s))
            jupyter_kernel_init_code
      | None \<Rightarrow>
     (case browse_search s of
        Some (i, body) \<Rightarrow>
          BrowseInteractiveAction (strip body) (strip (replace_by_empty
                 (group0 ''<execute_browse>'' ''</execute_browse>'' body) s))
      | None \<Rightarrow> MessageAction s True)))"
proof -
  have "finish_search s = None"
    using assms by (simp add: finish_search_def re_search_None)
  then show ?thesis
    by (simp add: classify_def Let_def split: option.splits)
qed

text \<open>
  C7. The classification tests the text in the fixed order finish, command, code, browse,
  plain message, and the first test that succeeds decides. A text with a finish tag pair
  gives a finish action, whether or not it has a command tag pair as well, and the
  thought of that action is the text without the matched finish span, stripped. Without
  a finish tag pair, a command tag pair gives a command action (or the finish action of
  the \<open>exit\<close> alias); without these two, a code tag pair gives a code action; without
  these three, a browse tag pair gives a browse action; and a text with no pair at all
  is handed back as a message.
\<close>

theorem classify_priority:
  "(tag_pair ''<finish>'' ''</finish>'' s \<longrightarrow>
      (\<exists>pre body post. s = pre @ ''<finish>'' @ body @ ''</finish>'' @ post \<and>
         finish_search s = Some (length pre, body) \<and>
         classify s = AgentFinishAction (Some (strip (pre @ post))))) \<and>
   (\<not> tag_pair ''<finish>'' ''</finish>'' s \<and>
    tag_pair ''<execute_bash>'' ''</execute_bash>'' s \<longrightarrow>
      (\<exists>command thought. classify s = CmdRunAction command thought) \<or>
      classify s = AgentFinishAction None) \<and>
   (\<not> tag_pair ''<finish>'' ''</finish>'' s \<and>
    \<not> tag_pair ''<execute_bash>'' ''</execute_bash>'' s \<and>
    tag_pair ''<execute_ipython>'' ''</execute_ipython>'' s \<longrightarrow>
      (\<exists>code thought. classify s = IPythonRunCellAction code thought jupyter_kernel_init_code)) \<and>
   (\<not> tag_pair ''<finish>'' ''</finish>'' s \<and>
    \<not> tag_pair ''<execute_bash>'' ''</execute_bash>'' s \<and>
    \<not> tag_pair ''<execute_ipython>'' ''</execute_ipython>'' s \<and>
    tag_pair ''<execute_browse>'' ''</execute_browse>'' s \<longrightarrow>
      (\<exists>browser_actions thought. classify s = BrowseInteractiveAction browser_actions thought)) \<and>
   (\<not> tag_pair ''<finish>'' ''</finish>'' s \<and>
    \<not> tag_pair ''<execute_bash>'' ''</execute_bash>'' s \<and>
    \<not> tag_pair ''<execute_ipython>'' ''</execute_ipython>'' s \<and>
    \<not> tag_pair ''<execute_browse>'' ''</execute_browse>'' s \<longrightarrow>
      classify s = MessageAction s True)"
proof (intro conjI impI)
  assume "tag_pair ''<finish>'' ''</finish>'' s"
  then show "\<exists>pre body post. s = pre @ ''<finish>'' @ body @ ''</finish>'' @ post \<and>
         finish_search s = Some (length pre, body) \<and>
         classify s = AgentFinishAction (Some (strip (pre @ post)))"
    by (rule classify_finish)
next
  assume a: "\<not> tag_pair ''<finish>'' ''</finish>'' s \<and>
    tag_pair ''<execute_bash>'' ''</execute_bash>'' s"
  then obtain i body where "bash_search s = Some (i, body)"
    using search_cases [of Lazy "''<execute_bash>''" "''</execute_bash>''" s]
    by (auto simp: bash_search_def)
  then show "(\<exists>command thought. classify s = CmdRunAction command thought) \<or>
      classify s = AgentFinishAction None"
    using a by (simp add: classify_no_finish)
next
  assume a: "\<not> tag_pair ''<finish>'' ''</finish>'' s \<and>
    \<not> tag_pair ''<execute_bash>'' ''</execute_bash>'' s \<and>
    tag_pair ''<execute_ipython>'' ''</execute_ipython>'' s"
  then have "bash_search s = None"
    by (simp add: bash_search_def re_search_None)
  moreover obtain i body where "ipython_search s = Some (i, body)"
    using a search_cases [of Lazy "''<execute_ipython>''" "''</execute_ipython>''" s]
    by (auto simp: ipython_search_def)
  ultimately show "\<exists>code thought. classify s =
      IPythonRunCellAction code thought jupyter_kernel_init_code"
    using a by (simp add: classify_no_finish)
next
  assume a: "\<not> tag_pair ''<finish>'' ''</finish>'' s \<and>
    \<not> tag_pair ''<execute_bash>'' ''</execute_bash>'' s \<and>
    \<not> tag_pair ''<execute_ipython>'' ''</execute_ipython>'' s \<and>
    tag_pair ''<execute_browse>'' ''</execute_browse>'' s"
  then have "bash_search s = None" "ipython_search s = None"
    by (simp_all add: bash_search_def ipython_search_def re_search_None)
  moreover obtain i body where "browse_search s = Some (i, body)"
    using a search_cases [of Greedy "''<execute_browse>''" "''</execute_browse>''" s]
    by (auto simp: browse_search_def)
  ultimately show "\<exists>browser_actions thought. classify s =
      BrowseInteractiveAction browser_actions thought"
    using a by (simp add: classify_no_finish)
next
  assume a: "\<not> tag_pair ''<finish>'' ''</finish>'' s \<and>
    \<not> tag_pair ''<execute_bash>'' ''</execute_bash>'' s \<and>
    \<not> tag_pair ''<execute_ipython>'' ''</execute_ipython>'' s \<and>
    \<not> tag_pair ''<execute_browse>'' ''</execute_browse>'' s"
  then have "bash_search s = None" "ipython_search s = None" "browse_search s = None"
    by (simp_all add: bash_search_def ipython_search_def browse_search_def re_search_None)
  then show "classify s = MessageAction s True"
    using a by (simp add: classify_no_finish)
qed


lemma tag_pairI: "s = pre @ op @ b @ cl @ post \<Longrightarrow> tag_pair op cl s"
  unfolding tag_pair_iff by blast

lemma split_at: "s = pre @ rest \<Longrightarrow> length pre = n \<Longrightarrow> pre = take n s \<and> rest = drop n s"
  by simp

theorem classify_priority_witness:
  "tag_pair ''<finish>'' ''</finish>''
     ''Done. <finish>ok</finish> <execute_bash>ls</execute_bash>'' \<and>
   tag_pair ''<execute_bash>'' ''</execute_bash>''
     ''Done. <finish>ok</finish> <execute_bash>ls</execute_bash>'' \<and>
   classify ''Done. <finish>ok</finish> <execute_bash>ls</execute_bash>'' =
     AgentFinishAction (Some ''Done.  <execute_bash>ls</execute_bash>'') \<and>
   \<not> tag_pair ''<finish>'' ''</finish>'' ''hello'' \<and>
   \<not> tag_pair ''<execute_bash>'' ''</execute_bash>'' ''hello'' \<and>
   \<not> tag_pair ''<execute_ipython>'' ''</execute_ipython>'' ''hello'' \<and>
   \<not> tag_pair ''<execute_browse>'' ''</execute_browse>'' ''hello'' \<and>
   classify ''hello'' = MessageAction ''hello'' True"
proof -
  let ?s = "''Done. <finish>ok</finish> <execute_bash>ls</execute_bash>''"
  have t1: "tag_pair ''<finish>'' ''</finish>'' ?s"
    by (rule tag_pairI [of _ "''Done. ''" _ "''ok''" _ "'' <execute_bash>ls</execute_bash>''"]) simp
  have t2: "tag_pair ''<execute_bash>'' ''</execute_bash>'' ?s"
    by (rule tag_pairI [of _ "''Done. <finish>ok</finish> ''" _ "''ls''" _ "[]"]) simp
  have n: "\<not> tag_pair ''<finish>'' ''</finish>'' ''hello''"
    "\<not> tag_pair ''<execute_bash>'' ''</execute_bash>'' ''hello''"
    "\<not> tag_pair ''<execute_ipython>'' ''</execute_ipython>'' ''hello''"
    "\<not> tag_pair ''<execute_browse>'' ''</execute_browse>'' ''hello''"
    by simp_all
  have e: "finish_search ?s = Some (6, ''ok'')"
    by (simp add: finish_search_def re_search_def match_at_def)
  from classify_priority [of ?s] t1 obtain pre body post where
    p: "?s = pre @ ''<finish>'' @ body @ ''</finish>'' @ post"
       "finish_search ?s = Some (length pre, body)"
       "classify ?s = AgentFinishAction (Some (strip (pre @ post)))"
    by blast
  from p(2) e have l: "length pre = 6" "body = ''ok''" by simp_all
  from split_at [OF p(1) l(1)]
  have pre: "pre = ''Done. ''" and "''<finish>'' @ body @ ''</finish>'' @ post = drop 6 ?s"
    by simp_all
  then have post: "post = '' <execute_bash>ls</execute_bash>''"
    using l(2) by simp
  have "classify ?s = AgentFinishAction (Some ''Done.  <execute_bash>ls</execute_bash>'')"
    unfolding p(3) pre post by (simp add: strip_def isspace_def)
  moreover have "classify ''hello'' = MessageAction ''hello'' True"
    using classify_priority [of "''hello''"] n by blast
  ultimately show ?thesis using t1 t2 n by blast
qed

section \<open>The exit alias\<close>

lemma dropWhile_keeps: "x \<in> set xs \<Longrightarrow> \<not> P x \<Longrightarrow> x \<in> set (dropWhile P xs)"
  by (induction xs) auto

lemma strip_keeps: "x \<in> set s \<Longrightarrow> \<not> isspace x \<Longrightarrow> x \<in> set (strip s)"
  unfolding strip_def by (simp add: dropWhile_keeps)

lemma lazy_search_first_pair:
  assumes s: "s = pre @ op @ body @ cl @ post"
    and first: "\<forall>pre' rest'. s = pre' @ op @ rest' \<longrightarrow> length pre \<le> length pre'"
    and nearest: "\<forall>b' p'. body @ cl @ post = b' @ cl @ p' \<longrightarrow> length body \<le> length b'"
  shows "re_search Lazy op cl s = Some (length pre, body)"
proof -
  have "tag_pair op cl s" using s by (rule tag_pairI)
  then obtain i b where r: "re_search Lazy op cl s = Some (i, b)"
    using search_cases [of Lazy op cl s] by auto
  from re_search_Some [OF r] obtain pre2 post2 where
    p: "s = pre2 @ op @ b @ cl @ post2" "i = length pre2"
       "match_body Lazy cl (b @ cl @ post2) = Some b"
       "\<forall>pre' rest'. s = pre' @ op @ rest' \<longrightarrow> length pre2 \<le> length pre'"
    by blast
  have "length pre2 \<le> length pre" using p(4) s by blast
  moreover have "length pre \<le> length pre2" using first p(1) by blast
  ultimately have len: "length pre = length pre2" by simp
  have "pre @ (op @ body @ cl @ post) = pre2 @ (op @ b @ cl @ post2)"
    using s p(1) by simp
  then have pre: "pre = pre2" and rest: "body @ cl @ post = b @ cl @ post2"
    using len by simp_all
  have "length b \<le> length body"
    using match_body_lazy_shortest [OF p(3)] rest by metis
  moreover have "length body \<le> length b" using nearest rest by blast
  ultimately have "body = b" using rest by (metis append_eq_append_conv le_antisym)
  then show ?thesis using r p(2) pre by simp
qed

lemma exit_body_nearest:
  assumes e: "strip body = ''exit''"
    and d: "body @ ''</execute_bash>'' @ post = b' @ ''</execute_bash>'' @ p'"
  shows "length body \<le> length b'"
proof (rule ccontr)
  assume "\<not> length body \<le> length b'"
  then have lt: "length b' < length body" by simp
  have "body ! length b' = (body @ ''</execute_bash>'' @ post) ! length b'"
    using lt by (simp add: nth_append)
  also have "\<dots> = (b' @ ''</execute_bash>'' @ p') ! length b'"
    using d by simp
  also have "\<dots> = CHR ''<''"
    by (simp add: nth_append)
  finally have "CHR ''<'' \<in> set body"
    using lt by (metis nth_mem)
  moreover have "\<not> isspace CHR ''<''"
    by (simp add: isspace_def)
  ultimately have "CHR ''<'' \<in> set (strip body)"
    by (rule strip_keeps)
  then show False using e by simp
qed

lemma exit_alias_search:
  assumes s: "s = pre @ ''<execute_bash>'' @ body @ ''</execute_bash>'' @ post"
    and first: "first_opening_at ''<execute_bash>'' s (length pre)"
    and e: "strip body = ''exit''"
  shows "bash_search s = Some (length pre, body)"
  unfolding bash_search_def
  using s first exit_body_nearest [OF e] by (intro lazy_search_first_pair) blast+

lemma strip_exit: "strip ''exit'' = ''exit''"
  by (simp add: strip_def isspace_def)

text \<open>
  C6, as amended. When the first command tag pair of a text (the first opening command
  tag, up to the closing tag behind it) has an inner text that strips to \<open>exit\<close>, the
  classification gives a finish action and no command action. A later command tag pair
  with the inner text \<open>exit\<close> does not count: the first pair decides.
\<close>

theorem exit_alias_finish:
  assumes "s = pre @ ''<execute_bash>'' @ body @ ''</execute_bash>'' @ post"
    and "first_opening_at ''<execute_bash>'' s (length pre)"
    and "strip body = ''exit''"
  shows "(\<exists>thought. classify s = AgentFinishAction thought) \<and>
         (\<forall>command thought. classify s \<noteq> CmdRunAction command thought)"
proof (cases "tag_pair ''<finish>'' ''</finish>'' s")
  case True
  then show ?thesis using classify_finish [of s] by auto
next
  case False
  have "bash_search s = Some (length pre, body)"
    using assms by (rule exit_alias_search)
  then have "classify s = AgentFinishAction None"
    using False assms(3) by (simp add: classify_no_finish strip_exit)
  then show ?thesis by simp
qed

theorem exit_alias_finish_witness:
  "''<execute_bash>exit</execute_bash>'' =
     [] @ ''<execute_bash>'' @ ''exit'' @ ''</execute_bash>'' @ [] \<and>
   strip ''exit'' = ''exit'' \<and>
   classify ''<execute_bash>exit</execute_bash>'' = AgentFinishAction None"
proof -
  have a: "''<execute_bash>exit</execute_bash>'' =
     [] @ ''<execute_bash>'' @ ''exit'' @ ''</execute_bash>'' @ []" by simp
  have b: "first_opening_at ''<execute_bash>'' ''<execute_bash>exit</execute_bash>''
     (length ([]::string))" by simp
  have c: "classify ''<execute_bash>exit</execute_bash>'' = AgentFinishAction None"
    by (simp add: classify_def finish_search_def bash_search_def re_search_def match_at_def
        strip_def isspace_def)
  from exit_alias_finish [OF a b strip_exit]
  have "\<exists>thought. classify ''<execute_bash>exit</execute_bash>'' = AgentFinishAction thought"
    by blast
  with a c strip_exit show ?thesis by blast
qed

theorem exit_alias_second_pair_counterexample:
  "''<execute_bash>ls</execute_bash> <execute_bash>exit</execute_bash>'' =
     ''<execute_bash>ls</execute_bash> '' @ ''<execute_bash>'' @ ''exit'' @ ''</execute_bash>'' @ [] \<and>
   strip ''exit'' = ''exit'' \<and>
   classify ''<execute_bash>ls</execute_bash> <execute_bash>exit</execute_bash>'' =
     CmdRunAction ''ls'' ''<execute_bash>exit</execute_bash>''"
  by (simp add: classify_def finish_search_def bash_search_def re_search_def match_at_def
      group0_def strip_def isspace_def)

text \<open>
  C10. When the exit alias fires, that is, the text has no finish tag pair and its first
  command tag pair has an inner text that strips to \<open>exit\<close>, the finish action carries
  no thought, whatever stands before and behind the pair. The finish action of a finish
  tag pair, in contrast, carries the rest of the text as its thought.
\<close>

theorem exit_alias_no_thought:
  assumes "\<not> tag_pair ''<finish>'' ''</finish>'' s"
    and "s = pre @ ''<execute_bash>'' @ body @ ''</execute_bash>'' @ post"
    and "first_opening_at ''<execute_bash>'' s (length pre)"
    and "strip body = ''exit''"
  shows "classify s = AgentFinishAction None \<and>
         (\<forall>s'. tag_pair ''<finish>'' ''</finish>'' s' \<longrightarrow>
            (\<exists>pre' body' post'. s' = pre' @ ''<finish>'' @ body' @ ''</finish>'' @ post' \<and>
               classify s' = AgentFinishAction (Some (strip (pre' @ post')))))"
proof
  have "bash_search s = Some (length pre, body)"
    using assms(2-4) by (rule exit_alias_search)
  then show "classify s = AgentFinishAction None"
    using assms(1,4) by (simp add: classify_no_finish strip_exit)
  show "\<forall>s'. tag_pair ''<finish>'' ''</finish>'' s' \<longrightarrow>
            (\<exists>pre' body' post'. s' = pre' @ ''<finish>'' @ body' @ ''</finish>'' @ post' \<and>
               classify s' = AgentFinishAction (Some (strip (pre' @ post'))))"
    using classify_finish by blast
qed

theorem exit_alias_no_thought_witness:
  "\<not> tag_pair ''<finish>'' ''</finish>'' ''bye <execute_bash> exit </execute_bash> now'' \<and>
   ''bye <execute_bash> exit </execute_bash> now'' =
      ''bye '' @ ''<execute_bash>'' @ '' exit '' @ ''</execute_bash>'' @ '' now'' \<and>
   strip '' exit '' = ''exit'' \<and>
   classify ''bye <execute_bash> exit </execute_bash> now'' = AgentFinishAction None \<and>
   classify ''bye <finish> exit </finish> now'' = AgentFinishAction (Some ''bye  now'')"
proof -
  let ?s = "''bye <execute_bash> exit </execute_bash> now''"
  have n: "re_search Greedy ''<finish>'' ''</finish>'' ?s = None"
    by (simp add: re_search_def match_at_def)
  have a: "\<not> tag_pair ''<finish>'' ''</finish>'' ?s"
    by (rule re_search_None [THEN iffD1, OF n])
  have b: "?s = ''bye '' @ ''<execute_bash>'' @ '' exit '' @ ''</execute_bash>'' @ '' now''"
    by simp
  have r: "bash_search ?s = Some (4, '' exit '')"
    by (simp add: bash_search_def re_search_def match_at_def)
  have c: "first_opening_at ''<execute_bash>'' ?s (length ''bye '')"
    using re_search_lazy_span [of "''<execute_bash>''" "''</execute_bash>''" ?s 4 "'' exit ''"] r
    by (auto simp: bash_search_def)
  have d: "strip '' exit '' = ''exit''" by (simp add: strip_def isspace_def)
  have e: "classify ''bye <finish> exit </finish> now'' = AgentFinishAction (Some ''bye  now'')"
    by (simp add: classify_def finish_search_def re_search_def match_at_def group0_def
        strip_def isspace_def)
  from exit_alias_no_thought [OF a b c d] have "classify ?s = AgentFinishAction None"
    by blast
  with a b d e show ?thesis by blast
qed

section \<open>Properties of the tag repair\<close>

lemma contains_boundary:
  assumes t: "t \<noteq> []" and inner: "CHR ''<'' \<notin> set (tl t)"
    and u: "u = [] \<or> hd u = CHR ''<''"
  shows "contains t (s @ u) \<longleftrightarrow> contains t s \<or> contains t u"
proof
  assume "contains t s \<or> contains t u"
  then show "contains t (s @ u)"
  proof
    assume "contains t s"
    then obtain a b where "s = a @ t @ b" by (auto simp: contains_iff)
    then have "s @ u = a @ t @ (b @ u)" by simp
    then show ?thesis unfolding contains_iff by blast
  next
    assume "contains t u"
    then obtain a b where "u = a @ t @ b" by (auto simp: contains_iff)
    then have "s @ u = (s @ a) @ t @ b" by simp
    then show ?thesis unfolding contains_iff by blast
  qed
next
  assume "contains t (s @ u)"
  then obtain a b where ab: "s @ u = a @ (t @ b)" by (auto simp: contains_iff)
  then consider w where "s = a @ w" "w @ u = t @ b" | w where "s @ w = a" "u = w @ t @ b"
    unfolding append_eq_append_conv2 by blast
  then show "contains t s \<or> contains t u"
  proof cases
    case 2
    then show ?thesis unfolding contains_iff by blast
  next
    case 1
    from 1(2) consider v where "w = t @ v" "v @ u = b" | v where "w @ v = t" "u = v @ b"
      unfolding append_eq_append_conv2 by blast
    then show ?thesis
    proof cases
      case 1
      then have "s = a @ t @ v" using \<open>s = a @ w\<close> by simp
      then show ?thesis unfolding contains_iff by blast
    next
      case 2
      show ?thesis
      proof (cases "v = []")
        case True
        then have "s = a @ t @ []" using 2 \<open>s = a @ w\<close> by simp
        then show ?thesis unfolding contains_iff by blast
      next
        case False
        show ?thesis
        proof (cases "w = []")
          case True
          then have "u = [] @ t @ b" using 2 by simp
          then show ?thesis unfolding contains_iff by blast
        next
          case w: False
          have "hd v = CHR ''<''" using False 2(2) u by auto
          moreover have "tl t = tl w @ v" using w 2(1) by auto
          ultimately have "CHR ''<'' \<in> set (tl t)" using False by (cases v) auto
          then show ?thesis using inner by simp
        qed
      qed
    qed
  qed
qed

lemma repair_tag_eq:
  "repair_tag lang action = action @ (if unterminated lang action then close_tag lang else [])"
  by (simp add: repair_tag_def)

lemma contains_append_tag:
  assumes "t \<noteq> []" and "CHR ''<'' \<notin> set (tl t)" and "u = [] \<or> hd u = CHR ''<''"
    and "\<not> contains t u"
  shows "contains t (s @ u) = contains t s"
  using contains_boundary [OF assms(1-3), of s] assms(4) by simp

lemma after_close_bash:
  "contains (open_tag ''ipython'') (s @ close_tag ''bash'') = contains (open_tag ''ipython'') s"
  "contains (close_tag ''ipython'') (s @ close_tag ''bash'') = contains (close_tag ''ipython'') s"
  "contains (open_tag ''browse'') (s @ close_tag ''bash'') = contains (open_tag ''browse'') s"
  "contains (close_tag ''browse'') (s @ close_tag ''bash'') = contains (close_tag ''browse'') s"
  by (rule contains_append_tag; simp add: open_tag_def close_tag_def)+

lemma after_close_ipython:
  "contains (open_tag ''browse'') (s @ close_tag ''ipython'') = contains (open_tag ''browse'') s"
  "contains (close_tag ''browse'') (s @ close_tag ''ipython'') = contains (close_tag ''browse'') s"
  by (rule contains_append_tag; simp add: open_tag_def close_tag_def)+

lemma repair_tags_eq:
  "repair_tags s =
     s @ (if unterminated ''bash'' s then close_tag ''bash'' else []) @
         (if unterminated ''ipython'' s then close_tag ''ipython'' else []) @
         (if unterminated ''browse'' s then close_tag ''browse'' else [])"
proof -
  define A where "A = (if unterminated ''bash'' s then close_tag ''bash'' else [])"
  define B where "B = (if unterminated ''ipython'' s then close_tag ''ipython'' else [])"
  define C where "C = (if unterminated ''browse'' s then close_tag ''browse'' else [])"
  have s1: "repair_tag ''bash'' s = s @ A"
    unfolding A_def by (rule repair_tag_eq)
  have i1: "unterminated ''ipython'' (s @ A) = unterminated ''ipython'' s"
    unfolding A_def by (simp add: after_close_bash)
  have b1: "contains (open_tag ''browse'') (s @ A) = contains (open_tag ''browse'') s"
    "contains (close_tag ''browse'') (s @ A) = contains (close_tag ''browse'') s"
    unfolding A_def by (simp_all add: after_close_bash)
  have s2: "repair_tag ''ipython'' (s @ A) = (s @ A) @ B"
    unfolding B_def repair_tag_eq i1 ..
  have b2: "unterminated ''browse'' ((s @ A) @ B) = unterminated ''browse'' s"
  proof (cases "unterminated ''ipython'' s")
    case True
    then have "B = close_tag ''ipython''" unfolding B_def by auto
    then show ?thesis
      using after_close_ipython [of "s @ A"] b1 by simp
  next
    case False
    then have "B = []" unfolding B_def by auto
    then show ?thesis using b1 by simp
  qed
  have s3: "repair_tag ''browse'' ((s @ A) @ B) = ((s @ A) @ B) @ C"
    unfolding C_def repair_tag_eq b2 ..
  have "repair_tags s =
      repair_tag ''browse'' (repair_tag ''ipython'' (repair_tag ''bash'' s))"
    by (simp add: repair_tags_def)
  also have "\<dots> = ((s @ A) @ B) @ C"
    by (simp only: s1 s2 s3)
  finally show ?thesis
    unfolding A_def B_def C_def by simp
qed


lemma tags_literal:
  "open_tag ''bash'' = ''<execute_bash>''" "close_tag ''bash'' = ''</execute_bash>''"
  "open_tag ''ipython'' = ''<execute_ipython>''" "close_tag ''ipython'' = ''</execute_ipython>''"
  "open_tag ''browse'' = ''<execute_browse>''" "close_tag ''browse'' = ''</execute_browse>''"
  by (simp_all add: open_tag_def close_tag_def)

lemma repaired_has_pair:
  assumes "unterminated lang s" and "repair_tags s = s @ x @ close_tag lang @ y"
  shows "tag_pair (open_tag lang) (close_tag lang) (repair_tags s)"
proof -
  from assms(1) obtain a b where "s = a @ open_tag lang @ b"
    by (auto simp: contains_iff)
  then have "repair_tags s = a @ open_tag lang @ (b @ x) @ close_tag lang @ y"
    using assms(2) by simp
  then show ?thesis by (rule tag_pairI)
qed

lemma repair_tags_unchanged:
  assumes "\<not> tag_pair ''<execute_bash>'' ''</execute_bash>'' (repair_tags s)"
    and "\<not> tag_pair ''<execute_ipython>'' ''</execute_ipython>'' (repair_tags s)"
    and "\<not> tag_pair ''<execute_browse>'' ''</execute_browse>'' (repair_tags s)"
  shows "repair_tags s = s"
proof -
  define A where "A = (if unterminated ''bash'' s then close_tag ''bash'' else [])"
  define B where "B = (if unterminated ''ipython'' s then close_tag ''ipython'' else [])"
  define C where "C = (if unterminated ''browse'' s then close_tag ''browse'' else [])"
  have r: "repair_tags s = s @ A @ B @ C"
    unfolding A_def B_def C_def by (rule repair_tags_eq)
  have "\<not> unterminated ''bash'' s"
  proof
    assume u: "unterminated ''bash'' s"
    then have "repair_tags s = s @ [] @ close_tag ''bash'' @ (B @ C)"
      using r unfolding A_def by auto
    from repaired_has_pair [OF u this] show False
      using assms(1) by (simp only: tags_literal)
  qed
  moreover have "\<not> unterminated ''ipython'' s"
  proof
    assume u: "unterminated ''ipython'' s"
    then have "repair_tags s = s @ A @ close_tag ''ipython'' @ C"
      using r unfolding B_def by auto
    from repaired_has_pair [OF u this] show False
      using assms(2) by (simp only: tags_literal)
  qed
  moreover have "\<not> unterminated ''browse'' s"
  proof
    assume u: "unterminated ''browse'' s"
    then have "repair_tags s = s @ (A @ B) @ close_tag ''browse'' @ []"
      using r unfolding C_def by auto
    from repaired_has_pair [OF u this] show False
      using assms(3) by (simp only: tags_literal)
  qed
  ultimately show ?thesis
    using r unfolding A_def B_def C_def by auto
qed

text \<open>
  C5. For each of the three tags, command, code and browse, in this order: when the
  opening tag occurs in the response text and the closing tag does not,
  \<open>parse_response\<close> appends the closing tag. So the repaired text is the response text,
  followed by the closing tags that were missing. The response
  \<open><execute_bash>\<close>, newline, \<open>ls -la\<close> gets its closing tag and is classified as
  the command \<open>ls -la\<close>, with an empty thought.
\<close>

theorem tag_repair:
  "repair_tags s =
     s @ (if unterminated ''bash'' s then close_tag ''bash'' else []) @
         (if unterminated ''ipython'' s then close_tag ''ipython'' else []) @
         (if unterminated ''browse'' s then close_tag ''browse'' else []) \<and>
   parse_response (s # choices) = Inr (repair_tags s) \<and>
   repair_tags ''<execute_bash>\<newline>ls -la'' = ''<execute_bash>\<newline>ls -la</execute_bash>'' \<and>
   classify (repair_tags ''<execute_bash>\<newline>ls -la'') = CmdRunAction ''ls -la'' []"
proof (intro conjI)
  show "repair_tags s =
     s @ (if unterminated ''bash'' s then close_tag ''bash'' else []) @
         (if unterminated ''ipython'' s then close_tag ''ipython'' else []) @
         (if unterminated ''browse'' s then close_tag ''browse'' else [])"
    by (rule repair_tags_eq)
  show "parse_response (s # choices) = Inr (repair_tags s)"
    by (simp add: parse_response_def)
  show r: "repair_tags ''<execute_bash>\<newline>ls -la'' = ''<execute_bash>\<newline>ls -la</execute_bash>''"
    by (simp add: repair_tags_def repair_tag_def open_tag_def close_tag_def)
  show "classify (repair_tags ''<execute_bash>\<newline>ls -la'') = CmdRunAction ''ls -la'' []"
    unfolding r
    by (simp add: classify_def finish_search_def bash_search_def re_search_def match_at_def
        group0_def strip_def isspace_def)
qed

section \<open>Totality and the fallback\<close>

lemma fallback_message:
  assumes "\<not> tag_pair ''<finish>'' ''</finish>'' t \<and>
      \<not> tag_pair ''<execute_bash>'' ''</execute_bash>'' t \<and>
      \<not> tag_pair ''<execute_ipython>'' ''</execute_ipython>'' t \<and>
      \<not> tag_pair ''<execute_browse>'' ''</execute_browse>'' t"
  shows "classify t = MessageAction t True"
proof -
  have "bash_search t = None" "ipython_search t = None" "browse_search t = None"
    using assms
    by (simp_all add: bash_search_def ipython_search_def browse_search_def re_search_None)
  then show ?thesis using assms by (simp add: classify_no_finish)
qed

lemma repair_tags_terminated:
  assumes "\<not> unterminated ''bash'' raw" and "\<not> unterminated ''ipython'' raw"
    and "\<not> unterminated ''browse'' raw"
  shows "repair_tags raw = raw"
  unfolding repair_tags_eq [of raw] using assms by auto

text \<open>
  C9, as amended. The classifier, that is the tag repair followed by the classification,
  is total: every response with a first choice is parsed without an error, and every text
  gives exactly one action, of one of the five kinds. A response text that has no finish,
  command, code or browse tag pair and no command, code or browse opening tag without its
  closing tag comes through the repair unchanged and gives a message action whose content
  is the text itself and which waits for a response. The same holds of every response
  text whose repaired form has no tag pair, and of the classification of any text without
  a tag pair.
\<close>

theorem classify_total:
  "parse_response (raw # choices) = Inr (repair_tags raw) \<and>
   ((\<exists>thought. classify (repair_tags raw) = AgentFinishAction thought) \<or>
    (\<exists>command thought. classify (repair_tags raw) = CmdRunAction command thought) \<or>
    (\<exists>code thought.
        classify (repair_tags raw) = IPythonRunCellAction code thought jupyter_kernel_init_code) \<or>
    (\<exists>browser_actions thought.
        classify (repair_tags raw) = BrowseInteractiveAction browser_actions thought) \<or>
    classify (repair_tags raw) = MessageAction (repair_tags raw) True) \<and>
   (\<not> tag_pair ''<finish>'' ''</finish>'' raw \<and>
    \<not> tag_pair ''<execute_bash>'' ''</execute_bash>'' raw \<and>
    \<not> tag_pair ''<execute_ipython>'' ''</execute_ipython>'' raw \<and>
    \<not> tag_pair ''<execute_browse>'' ''</execute_browse>'' raw \<and>
    \<not> unterminated ''bash'' raw \<and>
    \<not> unterminated ''ipython'' raw \<and>
    \<not> unterminated ''browse'' raw \<longrightarrow>
      repair_tags raw = raw \<and> classify (repair_tags raw) = MessageAction raw True) \<and>
   (\<not> tag_pair ''<finish>'' ''</finish>'' (repair_tags raw) \<and>
    \<not> tag_pair ''<execute_bash>'' ''</execute_bash>'' (repair_tags raw) \<and>
    \<not> tag_pair ''<execute_ipython>'' ''</execute_ipython>'' (repair_tags raw) \<and>
    \<not> tag_pair ''<execute_browse>'' ''</execute_browse>'' (repair_tags raw) \<longrightarrow>
      repair_tags raw = raw \<and> classify (repair_tags raw) = MessageAction raw True) \<and>
   (\<not> tag_pair ''<finish>'' ''</finish>'' s \<and>
    \<not> tag_pair ''<execute_bash>'' ''</execute_bash>'' s \<and>
    \<not> tag_pair ''<execute_ipython>'' ''</execute_ipython>'' s \<and>
    \<not> tag_pair ''<execute_browse>'' ''</execute_browse>'' s \<longrightarrow>
      classify s = MessageAction s True)"
proof -
  have parse: "parse_response (raw # choices) = Inr (repair_tags raw)"
    by (simp add: parse_response_def)
  have kinds: "(\<exists>thought. classify t = AgentFinishAction thought) \<or>
    (\<exists>command thought. classify t = CmdRunAction command thought) \<or>
    (\<exists>code thought. classify t = IPythonRunCellAction code thought jupyter_kernel_init_code) \<or>
    (\<exists>browser_actions thought. classify t = BrowseInteractiveAction browser_actions thought) \<or>
    classify t = MessageAction t True" for t
    by (auto simp: classify_def Let_def split: option.splits)
  have terminated:
    "repair_tags raw = raw \<and> classify (repair_tags raw) = MessageAction raw True"
    if n: "\<not> tag_pair ''<finish>'' ''</finish>'' raw \<and>
        \<not> tag_pair ''<execute_bash>'' ''</execute_bash>'' raw \<and>
        \<not> tag_pair ''<execute_ipython>'' ''</execute_ipython>'' raw \<and>
        \<not> tag_pair ''<execute_browse>'' ''</execute_browse>'' raw \<and>
        \<not> unterminated ''bash'' raw \<and>
        \<not> unterminated ''ipython'' raw \<and>
        \<not> unterminated ''browse'' raw"
  proof -
    have r: "repair_tags raw = raw"
      using n by (intro repair_tags_terminated) blast+
    have "classify raw = MessageAction raw True"
      using n by (intro fallback_message) blast
    then show ?thesis using r by simp
  qed
  have repaired:
    "repair_tags raw = raw \<and> classify (repair_tags raw) = MessageAction raw True"
    if n: "\<not> tag_pair ''<finish>'' ''</finish>'' (repair_tags raw) \<and>
        \<not> tag_pair ''<execute_bash>'' ''</execute_bash>'' (repair_tags raw) \<and>
        \<not> tag_pair ''<execute_ipython>'' ''</execute_ipython>'' (repair_tags raw) \<and>
        \<not> tag_pair ''<execute_browse>'' ''</execute_browse>'' (repair_tags raw)"
  proof -
    have "repair_tags raw = raw" using n by (intro repair_tags_unchanged) simp_all
    then show ?thesis using fallback_message [OF n] by simp
  qed
  show ?thesis
    using parse kinds [of "repair_tags raw"] terminated repaired fallback_message [of s]
    by blast
qed

theorem classify_total_witness:
  "\<not> tag_pair ''<finish>'' ''</finish>'' ''I need more details.'' \<and>
   \<not> tag_pair ''<execute_bash>'' ''</execute_bash>'' ''I need more details.'' \<and>
   \<not> tag_pair ''<execute_ipython>'' ''</execute_ipython>'' ''I need more details.'' \<and>
   \<not> tag_pair ''<execute_browse>'' ''</execute_browse>'' ''I need more details.'' \<and>
   \<not> contains (open_tag ''bash'') ''I need more details.'' \<and>
   \<not> contains (open_tag ''ipython'') ''I need more details.'' \<and>
   \<not> contains (open_tag ''browse'') ''I need more details.'' \<and>
   repair_tags ''I need more details.'' = ''I need more details.'' \<and>
   classify (repair_tags ''I need more details.'') =
     MessageAction ''I need more details.'' True"
proof -
  let ?s = "''I need more details.''"
  have n: "\<not> tag_pair ''<finish>'' ''</finish>'' ?s"
    "\<not> tag_pair ''<execute_bash>'' ''</execute_bash>'' ?s"
    "\<not> tag_pair ''<execute_ipython>'' ''</execute_ipython>'' ?s"
    "\<not> tag_pair ''<execute_browse>'' ''</execute_browse>'' ?s"
    by simp_all
  have o: "\<not> contains (open_tag ''bash'') ?s" "\<not> contains (open_tag ''ipython'') ?s"
    "\<not> contains (open_tag ''browse'') ?s"
    by (simp_all add: open_tag_def)
  have "repair_tags ?s = ?s \<and> classify (repair_tags ?s) = MessageAction ?s True"
    using classify_total [of ?s "[]" ?s] n o by blast
  with n o show ?thesis by blast
qed

theorem unterminated_tag_counterexample:
  "\<not> tag_pair ''<finish>'' ''</finish>'' ''<execute_bash>\<newline>ls -la'' \<and>
   \<not> tag_pair ''<execute_bash>'' ''</execute_bash>'' ''<execute_bash>\<newline>ls -la'' \<and>
   \<not> tag_pair ''<execute_ipython>'' ''</execute_ipython>'' ''<execute_bash>\<newline>ls -la'' \<and>
   \<not> tag_pair ''<execute_browse>'' ''</execute_browse>'' ''<execute_bash>\<newline>ls -la'' \<and>
   parse_response [''<execute_bash>\<newline>ls -la''] = Inr ''<execute_bash>\<newline>ls -la</execute_bash>'' \<and>
   classify ''<execute_bash>\<newline>ls -la</execute_bash>'' = CmdRunAction ''ls -la'' [] \<and>
   classify (repair_tags ''<execute_bash>\<newline>ls -la'') \<noteq>
     MessageAction ''<execute_bash>\<newline>ls -la'' True"
proof -
  have r: "repair_tags ''<execute_bash>\<newline>ls -la'' = ''<execute_bash>\<newline>ls -la</execute_bash>''"
    by (simp add: repair_tags_def repair_tag_def open_tag_def close_tag_def)
  have c: "classify ''<execute_bash>\<newline>ls -la</execute_bash>'' = CmdRunAction ''ls -la'' []"
    by (simp add: classify_def finish_search_def bash_search_def re_search_def match_at_def
        group0_def strip_def isspace_def)
  have n: "\<not> tag_pair ''<finish>'' ''</finish>'' ''<execute_bash>\<newline>ls -la''"
    "\<not> tag_pair ''<execute_bash>'' ''</execute_bash>'' ''<execute_bash>\<newline>ls -la''"
    "\<not> tag_pair ''<execute_ipython>'' ''</execute_ipython>'' ''<execute_bash>\<newline>ls -la''"
    "\<not> tag_pair ''<execute_browse>'' ''</execute_browse>'' ''<execute_bash>\<newline>ls -la''"
    by simp_all
  have p: "parse_response [''<execute_bash>\<newline>ls -la''] =
      Inr ''<execute_bash>\<newline>ls -la</execute_bash>''"
    by (simp add: parse_response_def r)
  show ?thesis using n p c unfolding r by simp
qed

section \<open>The reminder of the history assembler\<close>

lemma str_int_8: "str_int 8 = ''8''"
  by (simp add: str_int_def str_nat.simps digit_char_def)

lemma latest_user_index_Some:
  "latest_user_index ms = Some i \<Longrightarrow>
     i < length ms \<and> role (ms ! i) = ''user'' \<and>
     (\<forall>j. i < j \<and> j < length ms \<longrightarrow> role (ms ! j) \<noteq> ''user'')"
proof (induction ms arbitrary: i)
  case Nil
  then show ?case by simp
next
  case (Cons m ms)
  show ?case
  proof (cases "latest_user_index ms")
    case None
    then have i: "i = 0" "role m = ''user''"
      using Cons.prems by (auto split: if_splits)
    have "role (ms ! k) \<noteq> ''user''" if "k < length ms" for k
      using that None
    proof (induction ms arbitrary: k)
      case Nil
      then show ?case by simp
    next
      case (Cons x xs)
      then show ?case by (cases k) (auto split: option.splits if_splits)
    qed
    then have "\<forall>j. 0 < j \<and> j < length (m # ms) \<longrightarrow> role ((m # ms) ! j) \<noteq> ''user''"
      by (auto simp: nth_Cons split: nat.splits)
    then show ?thesis using i by simp
  next
    case (Some i0)
    then have i: "i = Suc i0" using Cons.prems by simp
    from Cons.IH [OF Some] have ih: "i0 < length ms" "role (ms ! i0) = ''user''"
      "\<forall>j. i0 < j \<and> j < length ms \<longrightarrow> role (ms ! j) \<noteq> ''user''" by auto
    have "\<forall>j. Suc i0 < j \<and> j < length (m # ms) \<longrightarrow> role ((m # ms) ! j) \<noteq> ''user''"
      using ih(3) by (auto simp: nth_Cons split: nat.splits)
    then show ?thesis using i ih by simp
  qed
qed

lemma latest_user_index_append:
  "latest_user_index ms \<noteq> None \<Longrightarrow> latest_user_index (ms @ ns) \<noteq> None"
  by (induction ms) (auto split: option.splits if_splits)

lemma history_has_user: "latest_user_index (history_messages agent state) \<noteq> None"
  unfolding history_messages_def
  by (rule latest_user_index_append) simp


lemma reminder_8:
  "iteration state = 2 \<Longrightarrow> max_iterations state = 10 \<Longrightarrow>
   reminder state = ''\<newline>\<newline>ENVIRONMENT REMINDER: You have 8 turns left to complete the task.''"
  by (simp add: reminder_def str_int_8)

text \<open>
  C8. The messages built from the prompt texts and the history always have a latest user
  message, at the position \<open>i\<close>. When its stripped content is not \<open>/exit\<close>,
  \<open>_get_messages\<close> returns the list with the reminder appended to the content of that
  message and nothing else changed; the reminder reports \<open>max_iterations - iteration\<close>
  turns, which are 8 turns for the iteration 2 of 10. When the stripped content is
  \<open>/exit\<close>, the list is returned as it was built.
\<close>

theorem reminder_appended:
  "(\<exists>i. latest_user_index (history_messages agent state) = Some i \<and>
      i < length (history_messages agent state) \<and>
      role (history_messages agent state ! i) = ''user'' \<and>
      (\<forall>j. i < j \<and> j < length (history_messages agent state) \<longrightarrow>
           role (history_messages agent state ! j) \<noteq> ''user'') \<and>
      (strip (content (history_messages agent state ! i)) \<noteq> ''/exit'' \<longrightarrow>
         get_messages agent state =
           (history_messages agent state)
             [i := (history_messages agent state ! i)\<lparr>content :=
                content (history_messages agent state ! i) @ reminder state\<rparr>]) \<and>
      (strip (content (history_messages agent state ! i)) = ''/exit'' \<longrightarrow>
         get_messages agent state = history_messages agent state)) \<and>
   reminder state =
     ''\<newline>\<newline>ENVIRONMENT REMINDER: You have '' @
     str_int (max_iterations state - iteration state) @
     '' turns left to complete the task.'' \<and>
   (iteration state = 2 \<and> max_iterations state = 10 \<longrightarrow>
      reminder state =
        ''\<newline>\<newline>ENVIRONMENT REMINDER: You have 8 turns left to complete the task.'')"
proof (intro conjI)
  obtain i where i: "latest_user_index (history_messages agent state) = Some i"
    using history_has_user [of agent state] by auto
  note facts = latest_user_index_Some [OF i]
  have "strip (content (history_messages agent state ! i)) \<noteq> ''/exit'' \<longrightarrow>
         get_messages agent state =
           (history_messages agent state)
             [i := (history_messages agent state ! i)\<lparr>content :=
                content (history_messages agent state ! i) @ reminder state\<rparr>]"
    using i by (simp add: get_messages_def Let_def)
  moreover have "strip (content (history_messages agent state ! i)) = ''/exit'' \<longrightarrow>
         get_messages agent state = history_messages agent state"
    using i by (simp add: get_messages_def Let_def)
  ultimately show "\<exists>i. latest_user_index (history_messages agent state) = Some i \<and>
      i < length (history_messages agent state) \<and>
      role (history_messages agent state ! i) = ''user'' \<and>
      (\<forall>j. i < j \<and> j < length (history_messages agent state) \<longrightarrow>
           role (history_messages agent state ! j) \<noteq> ''user'') \<and>
      (strip (content (history_messages agent state ! i)) \<noteq> ''/exit'' \<longrightarrow>
         get_messages agent state =
           (history_messages agent state)
             [i := (history_messages agent state ! i)\<lparr>content :=
                content (history_messages agent state ! i) @ reminder state\<rparr>]) \<and>
      (strip (content (history_messages agent state ! i)) = ''/exit'' \<longrightarrow>
         get_messages agent state = history_messages agent state)"
    using i facts by blast
  show "reminder state =
     ''\<newline>\<newline>ENVIRONMENT REMINDER: You have '' @
     str_int (max_iterations state - iteration state) @
     '' turns left to complete the task.''"
    by (simp add: reminder_def)
  show "iteration state = 2 \<and> max_iterations state = 10 \<longrightarrow>
      reminder state =
        ''\<newline>\<newline>ENVIRONMENT REMINDER: You have 8 turns left to complete the task.''"
    using reminder_8 by blast
qed

lemma task_history:
  "history_messages counting_agent task_state =
     [\<lparr>role = ''system'', content = ''S''\<rparr>, \<lparr>role = ''user'', content = ''E''\<rparr>,
      \<lparr>role = ''user'', content = ''fix the bug''\<rparr>]"
  by (simp add: history_messages_def List.map_filter_def)

lemma exit_history:
  "history_messages counting_agent exit_state =
     [\<lparr>role = ''system'', content = ''S''\<rparr>, \<lparr>role = ''user'', content = ''E''\<rparr>,
      \<lparr>role = ''user'', content = '' /exit ''\<rparr>]"
  by (simp add: history_messages_def List.map_filter_def)

lemma strip_task: "strip ''fix the bug'' \<noteq> ''/exit''"
  by (simp add: strip_def isspace_def)

lemma strip_slash_exit: "strip '' /exit '' = ''/exit''"
  by (simp add: strip_def isspace_def)

theorem reminder_appended_witness:
  "iteration task_state = 2 \<and> max_iterations task_state = 10 \<and>
   get_messages counting_agent task_state =
     [\<lparr>role = ''system'', content = ''S''\<rparr>, \<lparr>role = ''user'', content = ''E''\<rparr>,
      \<lparr>role = ''user'', content =
         ''fix the bug\<newline>\<newline>ENVIRONMENT REMINDER: You have 8 turns left to complete the task.''\<rparr>] \<and>
   get_messages counting_agent exit_state =
     [\<lparr>role = ''system'', content = ''S''\<rparr>, \<lparr>role = ''user'', content = ''E''\<rparr>,
      \<lparr>role = ''user'', content = '' /exit ''\<rparr>]"
proof -
  have r: "reminder task_state =
      ''\<newline>\<newline>ENVIRONMENT REMINDER: You have 8 turns left to complete the task.''"
    using reminder_appended [of counting_agent task_state, THEN conjunct2, THEN conjunct2]
    by simp
  have it: "latest_user_index (history_messages counting_agent task_state) = Some 2"
    unfolding task_history by simp
  have ie: "latest_user_index (history_messages counting_agent exit_state) = Some 2"
    unfolding exit_history by simp
  have "get_messages counting_agent task_state =
      (history_messages counting_agent task_state)
        [2 := (history_messages counting_agent task_state ! 2)\<lparr>content :=
           content (history_messages counting_agent task_state ! 2) @ reminder task_state\<rparr>]"
    using reminder_appended [of counting_agent task_state] it strip_task
    by (auto simp: task_history)
  then have t: "get_messages counting_agent task_state =
     [\<lparr>role = ''system'', content = ''S''\<rparr>, \<lparr>role = ''user'', content = ''E''\<rparr>,
      \<lparr>role = ''user'', content =
         ''fix the bug\<newline>\<newline>ENVIRONMENT REMINDER: You have 8 turns left to complete the task.''\<rparr>]"
    unfolding r task_history by simp
  have e: "get_messages counting_agent exit_state = history_messages counting_agent exit_state"
    using reminder_appended [of counting_agent exit_state] ie strip_slash_exit
    by (auto simp: exit_history)
  show ?thesis using t e unfolding exit_history by simp
qed

section \<open>Properties of the step\<close>

lemma get_messages_completion [simp]:
  "get_messages (agent\<lparr>completion := f\<rparr>) state = get_messages agent state"
  by (simp add: get_messages_def history_messages_def)

text \<open>
  C4. When the assembled messages have a latest user message whose stripped content is
  \<open>/exit\<close>, the step returns the finish action (without a thought), leaves the state
  as it is and does not call the model client: the state of the client comes back
  unchanged, and the result is the same whatever the client's \<open>completion\<close> is.
\<close>

theorem exit_short_circuit:
  assumes "latest_user_message (get_messages agent state) = Some m"
    and "strip (content m) = ''/exit''"
  shows "\<forall>f. step (agent\<lparr>completion := f\<rparr>) llm state = Inr (AgentFinishAction None, state, llm)"
  using assms by (simp add: step_def)

lemma exit_messages:
  "get_messages counting_agent exit_state =
     [\<lparr>role = ''system'', content = ''S''\<rparr>, \<lparr>role = ''user'', content = ''E''\<rparr>,
      \<lparr>role = ''user'', content = '' /exit ''\<rparr>]"
  by (simp add: get_messages_def exit_history strip_slash_exit)

lemma task_messages:
  "get_messages counting_agent task_state =
     [\<lparr>role = ''system'', content = ''S''\<rparr>, \<lparr>role = ''user'', content = ''E''\<rparr>,
      \<lparr>role = ''user'', content =
         ''fix the bug\<newline>\<newline>ENVIRONMENT REMINDER: You have 8 turns left to complete the task.''\<rparr>]"
  by (simp add: get_messages_def task_history strip_task reminder_8)

theorem exit_short_circuit_witness:
  "latest_user_message (get_messages counting_agent exit_state) =
     Some \<lparr>role = ''user'', content = '' /exit ''\<rparr> \<and>
   strip (content \<lparr>role = ''user'', content = '' /exit ''\<rparr>) = ''/exit'' \<and>
   step counting_agent 0 exit_state = Inr (AgentFinishAction None, exit_state, 0) \<and>
   (\<forall>f. step (counting_agent\<lparr>completion := f\<rparr>) (0::nat) exit_state =
      Inr (AgentFinishAction None, exit_state, 0))"
proof -
  have a: "latest_user_message (get_messages counting_agent exit_state) =
     Some \<lparr>role = ''user'', content = '' /exit ''\<rparr>"
    unfolding exit_messages by (simp add: latest_user_message_def)
  have b: "strip (content \<lparr>role = ''user'', content = '' /exit ''\<rparr>) = ''/exit''"
    by (simp add: strip_slash_exit)
  note all = exit_short_circuit [OF a b, of 0]
  have "step (counting_agent\<lparr>completion := completion counting_agent\<rparr>) 0 exit_state =
      Inr (AgentFinishAction None, exit_state, 0)"
    using all by blast
  then have "step counting_agent 0 exit_state = Inr (AgentFinishAction None, exit_state, 0)"
    by simp
  with a b all show ?thesis by blast
qed

text \<open>
  C3, as amended. On a step that reaches the model call and gets a response with a first
  choice, the counter \<open>num_of_chars\<close> grows by the lengths of the contents of all
  messages sent plus the length of the response text after the tag repair (the text that
  \<open>parse_response\<close> returns), and nothing else of the state changes.
\<close>

theorem num_of_chars_update:
  assumes "\<not> (\<exists>m. latest_user_message (get_messages agent state) = Some m \<and>
                 strip (content m) = ''/exit'')"
    and "completion agent llm (get_messages agent state) stop_sequences 0 = (raw # choices, llm')"
  shows "step agent llm state =
     Inr (classify (repair_tags raw),
          state\<lparr>num_of_chars := num_of_chars state +
            ((\<Sum>message\<leftarrow>get_messages agent state. int (length (content message))) +
             int (length (repair_tags raw)))\<rparr>,
          llm')"
proof -
  have "\<not> (case latest_user_message (get_messages agent state) of
            None \<Rightarrow> False | Some m \<Rightarrow> strip (content m) = ''/exit'')"
    using assms(1) by (auto split: option.splits)
  then show ?thesis
    using assms(2) by (simp add: step_def Let_def parse_response_def chars_sent_def)
qed

lemma task_latest:
  "latest_user_message (get_messages counting_agent task_state) =
     Some \<lparr>role = ''user'', content =
       ''fix the bug\<newline>\<newline>ENVIRONMENT REMINDER: You have 8 turns left to complete the task.''\<rparr>"
  unfolding task_messages by (simp add: latest_user_message_def)

lemma strip_task_reminder:
  "strip ''fix the bug\<newline>\<newline>ENVIRONMENT REMINDER: You have 8 turns left to complete the task.''
     \<noteq> ''/exit''"
  by (simp add: strip_def isspace_def)

lemma repair_ls: "repair_tags ''<execute_bash>ls'' = ''<execute_bash>ls</execute_bash>''"
  by (simp add: repair_tags_def repair_tag_def open_tag_def close_tag_def)

lemma classify_ls: "classify ''<execute_bash>ls</execute_bash>'' = CmdRunAction ''ls'' []"
  by (simp add: classify_def finish_search_def bash_search_def re_search_def match_at_def
      group0_def strip_def isspace_def)

theorem num_of_chars_update_witness:
  "latest_user_message (get_messages counting_agent task_state) =
     Some \<lparr>role = ''user'', content =
       ''fix the bug\<newline>\<newline>ENVIRONMENT REMINDER: You have 8 turns left to complete the task.''\<rparr> \<and>
   strip ''fix the bug\<newline>\<newline>ENVIRONMENT REMINDER: You have 8 turns left to complete the task.''
     \<noteq> ''/exit'' \<and>
   completion counting_agent 0 (get_messages counting_agent task_state) stop_sequences 0 =
     ([''<execute_bash>ls''], 1) \<and>
   step counting_agent 0 task_state =
     Inr (CmdRunAction ''ls'' [], task_state\<lparr>num_of_chars := 111\<rparr>, 1) \<and>
   (\<Sum>message\<leftarrow>get_messages counting_agent task_state. int (length (content message))) = 80 \<and>
   int (length (repair_tags ''<execute_bash>ls'')) = 31"
proof -
  have a: "\<not> (\<exists>m. latest_user_message (get_messages counting_agent task_state) = Some m \<and>
                 strip (content m) = ''/exit'')"
    unfolding task_latest using strip_task_reminder by simp
  have b: "completion counting_agent 0 (get_messages counting_agent task_state)
      stop_sequences 0 = ([''<execute_bash>ls''], 1)"
    by simp
  have c: "(\<Sum>message\<leftarrow>get_messages counting_agent task_state.
      int (length (content message))) = 80"
    unfolding task_messages by simp
  have d: "int (length (repair_tags ''<execute_bash>ls'')) = 31"
    unfolding repair_ls by simp
  have "step counting_agent 0 task_state =
     Inr (CmdRunAction ''ls'' [], task_state\<lparr>num_of_chars := 111\<rparr>, 1)"
    using num_of_chars_update [OF a b] unfolding c d
    by (simp add: repair_ls classify_ls)
  with b c d task_latest strip_task_reminder show ?thesis by blast
qed

theorem raw_length_counterexample:
  "completion counting_agent 0 (get_messages counting_agent task_state) stop_sequences 0 =
     ([''<execute_bash>ls''], 1) \<and>
   step counting_agent 0 task_state =
     Inr (CmdRunAction ''ls'' [], task_state\<lparr>num_of_chars := 111\<rparr>, 1) \<and>
   num_of_chars task_state +
     ((\<Sum>message\<leftarrow>get_messages counting_agent task_state. int (length (content message))) +
      int (length ''<execute_bash>ls'')) = 96 \<and>
   num_of_chars (task_state\<lparr>num_of_chars := 111\<rparr>) \<noteq>
     num_of_chars task_state +
     ((\<Sum>message\<leftarrow>get_messages counting_agent task_state. int (length (content message))) +
      int (length ''<execute_bash>ls''))"
proof -
  have c: "(\<Sum>message\<leftarrow>get_messages counting_agent task_state.
      int (length (content message))) = 80"
    unfolding task_messages by simp
  have "\<not> (case latest_user_message (get_messages counting_agent task_state) of
            None \<Rightarrow> False | Some m \<Rightarrow> strip (content m) = ''/exit'')"
    unfolding task_latest using strip_task_reminder by simp
  then have "step counting_agent 0 task_state =
     Inr (CmdRunAction ''ls'' [], task_state\<lparr>num_of_chars := 111\<rparr>, 1)"
    by (simp add: step_def Let_def parse_response_def chars_sent_def c repair_ls classify_ls)
  then show ?thesis unfolding c by simp
qed

end
